theory Spec2Isabelle
  imports Main "HOL-Library.Sublist"
begin

section \<open>Strings\<close>

text \<open>
  JavaScript strings are modelled as \<open>string\<close> (a list of 8-bit characters): the UTF-8
  encoding that \<open>fs.writeFileSync\<close> puts on disk. Every character the server inspects
  (slash, dot, backslash, parentheses, CR, LF, digits) is ASCII, and UTF-8 never uses an
  ASCII byte inside the encoding of another character, so the searches and replacements
  of the source act on this encoding exactly as they act on the UTF-16 string.
\<close>

definition str_startsWith :: "string \<Rightarrow> string \<Rightarrow> bool" where
  \<comment> \<open>\<open>s.startsWith(p)\<close>\<close>
  "str_startsWith s p = prefix p s"

fun str_includes :: "string \<Rightarrow> string \<Rightarrow> bool" where
  \<comment> \<open>\<open>s.includes(sub)\<close>: \<open>sub\<close> occurs at some position of \<open>s\<close>\<close>
  "str_includes [] sub = (sub = [])"
| "str_includes (c # s) sub = (prefix sub (c # s) \<or> str_includes s sub)"

fun split_on :: "char \<Rightarrow> string \<Rightarrow> string list" where
  \<comment> \<open>\<open>s.split(c)\<close>: the pieces between the occurrences of \<open>c\<close>, empty pieces included\<close>
  "split_on c [] = [[]]"
| "split_on c (x # xs) =
     (if x = c then [] # split_on c xs
      else (case split_on c xs of [] \<Rightarrow> [[x]] | y # ys \<Rightarrow> (x # y) # ys))"

fun join_with :: "string \<Rightarrow> string list \<Rightarrow> string" where
  \<comment> \<open>\<open>segs.join(sep)\<close>\<close>
  "join_with sep [] = []"
| "join_with sep [s] = s"
| "join_with sep (s # t # ss) = s @ sep @ join_with sep (t # ss)"

section \<open>Node's POSIX \<open>path\<close> module\<close>

text \<open>
  \<open>validateTemplatePath\<close> and \<open>fillPdf\<close> call \<open>path.normalize\<close>, \<open>path.isAbsolute\<close>,
  \<open>path.join\<close> and \<open>path.resolve\<close> of the Node.js runtime (POSIX flavour). Node's
  \<open>normalizeString\<close> scans the characters once and keeps the result as a string; it treats
  the path segment by segment, which is how it is written here: an empty segment and
  \<open>.\<close> are dropped, \<open>..\<close> removes the last kept segment unless there is none or it is
  itself \<open>..\<close>, in which case \<open>..\<close> is kept when \<open>allowAboveRoot\<close> holds and dropped
  otherwise; every other segment is kept.
\<close>

fun norm_segs :: "bool \<Rightarrow> string list \<Rightarrow> string list \<Rightarrow> string list" where
  "norm_segs allow res [] = res"
| "norm_segs allow res (s # ss) =
     (if s = [] \<or> s = ''.'' then norm_segs allow res ss
      else if s = ''..'' then
        (if res \<noteq> [] \<and> last res \<noteq> ''..'' then norm_segs allow (butlast res) ss
         else if allow then norm_segs allow (res @ [''..'']) ss
         else norm_segs allow res ss)
      else norm_segs allow (res @ [s]) ss)"

definition normalizeString :: "string \<Rightarrow> bool \<Rightarrow> string" where
  "normalizeString p allowAboveRoot =
     join_with ''/'' (norm_segs allowAboveRoot [] (split_on (CHR ''/'') p))"

definition path_isAbsolute :: "string \<Rightarrow> bool" where
  "path_isAbsolute p = (p \<noteq> [] \<and> hd p = CHR ''/'')"

definition path_normalize :: "string \<Rightarrow> string" where
  "path_normalize p =
     (if p = [] then ''.''
      else
        (let isAbsolute = (hd p = CHR ''/'');
             trailingSeparator = (last p = CHR ''/'');
             r = normalizeString p (\<not> isAbsolute)
         in if r = [] then (if isAbsolute then ''/'' else if trailingSeparator then ''./'' else ''.'')
            else (if isAbsolute then ''/'' else []) @ r @ (if trailingSeparator then ''/'' else [])))"

definition path_join :: "string list \<Rightarrow> string" where
  \<comment> \<open>\<open>path.join(...args)\<close>: the non-empty arguments joined by a slash, then normalized\<close>
  "path_join args =
     (case filter (\<lambda>a. a \<noteq> []) args of
        [] \<Rightarrow> ''.''
      | joined \<Rightarrow> path_normalize (join_with ''/'' joined))"

definition path_resolve :: "string \<Rightarrow> string \<Rightarrow> string" where
  \<comment> \<open>\<open>path.resolve(p)\<close> with one argument; \<open>cwd\<close> is what \<open>process.cwd()\<close> returns\<close>
  "path_resolve cwd p =
     (let step = (\<lambda>(resolvedPath, resolvedAbsolute) a.
                    if resolvedAbsolute \<or> a = [] then (resolvedPath, resolvedAbsolute)
                    else (a @ ''/'' @ resolvedPath, hd a = CHR ''/''));
          (resolvedPath, resolvedAbsolute) = step (step ([], False) p) cwd;
          r = normalizeString resolvedPath (\<not> resolvedAbsolute)
      in if resolvedAbsolute then ''/'' @ r else if r \<noteq> [] then r else ''.'')"

section \<open>Template path validation\<close>

text \<open>
  The value of \<open>req.query.template\<close>: absent, a string, or an array or object (what the
  query-string parser builds from repeated or bracketed parameters).
\<close>

datatype query_value = QUndefined | QString string | QOther

definition truthy :: "query_value \<Rightarrow> bool" where
  \<comment> \<open>JavaScript truthiness: \<open>undefined\<close> and the empty string are falsy\<close>
  "truthy v = (case v of QUndefined \<Rightarrow> False | QString s \<Rightarrow> s \<noteq> [] | QOther \<Rightarrow> True)"

definition validateTemplatePath :: "string \<Rightarrow> string \<Rightarrow> query_value \<Rightarrow> string option" where
  \<comment> \<open>\<open>ORIG_ROOT\<close> and the working directory are parameters; \<open>None\<close> is \<open>null\<close>\<close>
  "validateTemplatePath ORIG_ROOT cwd template =
     (case template of
        QString t \<Rightarrow>
          if \<not> truthy template then None
          else
            (let normalizedTemplate = path_normalize t in
             if str_startsWith normalizedTemplate ''..'' \<or> str_includes normalizedTemplate ''..''
             then None
             else if path_isAbsolute normalizedTemplate then None
             else
               (let fullPath = path_join [ORIG_ROOT, normalizedTemplate];
                    resolvedPath = path_resolve cwd fullPath;
                    resolvedRoot = path_resolve cwd ORIG_ROOT
                in if \<not> str_startsWith resolvedPath resolvedRoot then None
                   else Some fullPath))
      | _ \<Rightarrow> None)"

section \<open>Building the FDF document\<close>

text \<open>
  An \<open>Error\<close> object is its message. A field value is what the JSON body holds under a
  key: \<open>null\<close>, \<open>undefined\<close>, a string, or any other value (a number, a boolean, a nested
  array or object), given by what its \<open>toString()\<close> does: return a string or throw.
  The field map is the list of its entries in the order of \<open>Object.keys\<close>; an object
  has each key once.
\<close>

datatype js_error = Error string

fun message :: "js_error \<Rightarrow> string" where
  "message (Error m) = m"

datatype field_value = JNull | JUndefined | JString string | JOther "js_error + string"

abbreviation LF :: char where "LF \<equiv> CHR 0x0A"
abbreviation CR :: char where "CR \<equiv> CHR 0x0D"
abbreviation BSL :: char where "BSL \<equiv> CHR 0x5C"

definition value_toString :: "field_value \<Rightarrow> js_error + string" where
  \<comment> \<open>\<open>(fieldsObj[key] ?? '').toString()\<close>\<close>
  "value_toString v =
     (case v of JNull \<Rightarrow> Inr [] | JUndefined \<Rightarrow> Inr [] | JString s \<Rightarrow> Inr s | JOther r \<Rightarrow> r)"

fun replace_char :: "char \<Rightarrow> string \<Rightarrow> string \<Rightarrow> string" where
  \<comment> \<open>\<open>s.replace(/c/g, rep)\<close> for a pattern of one character\<close>
  "replace_char c rep [] = []"
| "replace_char c rep (x # xs) =
     (if x = c then rep @ replace_char c rep xs else x # replace_char c rep xs)"

fun replace_newlines :: "string \<Rightarrow> string \<Rightarrow> string" where
  \<comment> \<open>\<open>s.replace(/\r?\n/g, rep)\<close>: a line feed, with the carriage return before it if any\<close>
  "replace_newlines rep [] = []"
| "replace_newlines rep [x] = (if x = LF then rep else [x])"
| "replace_newlines rep (x # y # ys) =
     (if x = CR \<and> y = LF then rep @ replace_newlines rep ys
      else if x = LF then rep @ replace_newlines rep (y # ys)
      else x # replace_newlines rep (y # ys))"

definition escape_value :: "string \<Rightarrow> string" where
  \<comment> \<open>the constant \<open>esc\<close> of \<open>buildFdf\<close>\<close>
  "escape_value v =
     replace_newlines [BSL, CHR ''r'']
       (replace_char (CHR '')'') [BSL, CHR '')'']
         (replace_char (CHR ''('') [BSL, CHR ''('']
           (replace_char BSL [BSL, BSL] v)))"

definition fdf_entry :: "string \<Rightarrow> string \<Rightarrow> string" where
  "fdf_entry key esc = ''<< /T ('' @ key @ '') /V ('' @ esc @ '') >>'' @ [LF]"

fun fdf_body :: "(string \<times> field_value) list \<Rightarrow> js_error + string" where
  \<comment> \<open>the loop over \<open>Object.keys(fieldsObj)\<close>; a throwing \<open>toString()\<close> ends it\<close>
  "fdf_body [] = Inr []"
| "fdf_body ((key, v) # rest) =
     (case value_toString v of
        Inl err \<Rightarrow> Inl err
      | Inr s \<Rightarrow>
          (case fdf_body rest of
             Inl err \<Rightarrow> Inl err
           | Inr body \<Rightarrow> Inr (fdf_entry key (escape_value s) @ body)))"

definition fdf_header :: string where
  \<comment> \<open>the second line is the four characters U+FFFD of the source, in UTF-8\<close>
  "fdf_header =
     ''%FDF-1.2'' @ [LF] @
     ''%'' @ concat (replicate 4 [CHR 0xEF, CHR 0xBF, CHR 0xBD]) @ [LF] @
     ''1 0 obj'' @ [LF] @
     ''<< /FDF << /Fields ['' @ [LF]"

definition fdf_trailer :: string where
  "fdf_trailer =
     [LF] @ ''] >> >>'' @ [LF] @
     ''endobj'' @ [LF] @
     ''trailer'' @ [LF] @
     ''<< /Root 1 0 R >>'' @ [LF] @
     ''%%EOF''"

definition buildFdf :: "(string \<times> field_value) list \<Rightarrow> js_error + string" where
  "buildFdf fieldsObj =
     (case fdf_body fieldsObj of
        Inl err \<Rightarrow> Inl err
      | Inr body \<Rightarrow> Inr (fdf_header @ body @ fdf_trailer))"

section \<open>The consumer of the FDF: reading a PDF literal string\<close>

text \<open>
  The tool that reads the FDF is not part of the repository. What it does with a value is
  fixed by the syntax of literal strings in PDF (ISO 32000-1, 7.3.4.2), written out here:
  after the opening parenthesis the string runs to the matching closing parenthesis;
  balanced parentheses stand for themselves; a backslash starts an escape (\<open>n r t b f\<close>, a
  parenthesis, a backslash, one to three octal digits, or an end of line, which is then
  skipped; before any other character the backslash is dropped); an end of line that is
  not escaped is read as one line feed. \<open>read_literal d s\<close> reads \<open>s\<close> inside \<open>d\<close> open
  inner parentheses and returns the string and the input after its closing parenthesis,
  or \<open>None\<close> when the string is not closed.
\<close>

definition octal_digit :: "char \<Rightarrow> nat option" where
  "octal_digit c = (let n = of_char c :: nat in if 48 \<le> n \<and> n < 56 then Some (n - 48) else None)"

fun read_octal :: "nat \<Rightarrow> nat \<Rightarrow> string \<Rightarrow> char \<times> string" where
  \<comment> \<open>up to \<open>k\<close> further octal digits after the value \<open>acc\<close>; high-order overflow is ignored\<close>
  "read_octal 0 acc s = (char_of acc, s)"
| "read_octal (Suc k) acc [] = (char_of acc, [])"
| "read_octal (Suc k) acc (c # cs) =
     (case octal_digit c of
        None \<Rightarrow> (char_of acc, c # cs)
      | Some d \<Rightarrow> read_octal k (8 * acc + d) cs)"

lemma read_octal_length [termination_simp]: "length (snd (read_octal k acc s)) \<le> length s"
  by (induction k acc s rule: read_octal.induct) (auto split: option.splits)

function read_literal :: "nat \<Rightarrow> string \<Rightarrow> (string \<times> string) option" where
  "read_literal d [] = None"
| "read_literal d (c # cs) =
     (if c = CHR '')'' then
        (if d = 0 then Some ([], cs)
         else map_option (\<lambda>(v, rest). (c # v, rest)) (read_literal (d - 1) cs))
      else if c = CHR ''('' then
        map_option (\<lambda>(v, rest). (c # v, rest)) (read_literal (Suc d) cs)
      else if c = BSL then
        (case cs of
           [] \<Rightarrow> None
         | e # es \<Rightarrow>
             if e = CHR ''n'' then map_option (\<lambda>(v, rest). (LF # v, rest)) (read_literal d es)
             else if e = CHR ''r'' then map_option (\<lambda>(v, rest). (CR # v, rest)) (read_literal d es)
             else if e = CHR ''t'' then map_option (\<lambda>(v, rest). (CHR 0x09 # v, rest)) (read_literal d es)
             else if e = CHR ''b'' then map_option (\<lambda>(v, rest). (CHR 0x08 # v, rest)) (read_literal d es)
             else if e = CHR ''f'' then map_option (\<lambda>(v, rest). (CHR 0x0C # v, rest)) (read_literal d es)
             else if e = LF then read_literal d es
             else if e = CR then
               (case es of
                  [] \<Rightarrow> None
                | l # ls \<Rightarrow> if l = LF then read_literal d ls else read_literal d (l # ls))
             else
               (case octal_digit e of
                  Some n \<Rightarrow>
                    map_option (\<lambda>(v, rest). (fst (read_octal 2 n es) # v, rest))
                      (read_literal d (snd (read_octal 2 n es)))
                | None \<Rightarrow> map_option (\<lambda>(v, rest). (e # v, rest)) (read_literal d es)))
      else if c = CR then
        (case cs of
           [] \<Rightarrow> None
         | l # ls \<Rightarrow>
             map_option (\<lambda>(v, rest). (LF # v, rest))
               (if l = LF then read_literal d ls else read_literal d (l # ls)))
      else map_option (\<lambda>(v, rest). (c # v, rest)) (read_literal d cs))"
  by pat_completeness auto
termination
proof (relation "measure (\<lambda>(d, s). length s)")
  fix d n :: nat and c e :: char and cs es :: string
  assume "cs = e # es"
  have "length (snd (read_octal 2 n es)) \<le> length es" by (rule read_octal_length)
  then show "((d, snd (read_octal 2 n es)), d, c # cs) \<in> measure (\<lambda>(d, s). length s)"
    using \<open>cs = e # es\<close> by simp
qed auto

section \<open>Filling a template: files, the subprocess and the promise\<close>

text \<open>
  The file system is a map from paths to contents, and the \<open>world\<close> also records every
  subprocess that was spawned, by its command line. What the call cannot decide is given
  by an environment: the temporary directory, the two readings of \<open>Date.now()\<close>, whether
  \<open>writeFileSync\<close> throws (and what it leaves at the path when it does), how the
  subprocess ends (an \<open>error\<close> event, or \<open>close\<close> with an exit code, \<open>None\<close> being the
  \<open>null\<close> code of a process killed by a signal), what the subprocess did to the files,
  whether \<open>readFile\<close> fails, and for which paths removing the file fails.
  A promise is settled at the first \<open>resolve\<close> or \<open>reject\<close>; \<open>Thrown\<close> is an exception thrown
  by the call itself and \<open>Uncaught\<close> an \<open>error\<close> event that no listener handles.
\<close>

type_synonym filesystem = "string \<rightharpoonup> string"

record world =
  files :: filesystem
  spawned :: "string list list"

datatype child_outcome = SpawnError js_error | Exit "int option"

record fill_env =
  tmpdir :: string
  now_fdf :: nat
  now_out :: nat
  write_fault :: "(js_error \<times> string option) option"
  child :: child_outcome
  child_writes :: "filesystem \<Rightarrow> filesystem"
  read_fault :: "js_error option"
  unlink_fault :: "string \<Rightarrow> js_error option"

datatype 'a promise = Resolved 'a | Rejected js_error | Thrown js_error | Uncaught js_error

fun digits :: "nat \<Rightarrow> string" where
  \<comment> \<open>the decimal digits of a number, as a template literal renders it\<close>
  "digits n =
     (if n < 10 then [''0123456789'' ! n]
      else digits (n div 10) @ [''0123456789'' ! (n mod 10)])"

declare digits.simps [simp del]

definition show_int :: "int \<Rightarrow> string" where
  "show_int i = (if i < 0 then ''-'' @ digits (nat (- i)) else digits (nat i))"

definition show_code :: "int option \<Rightarrow> string" where
  \<comment> \<open>\<open>${code}\<close> for the code of the \<open>close\<close> event\<close>
  "show_code code = (case code of None \<Rightarrow> ''null'' | Some i \<Rightarrow> show_int i)"

definition enoent :: "string \<Rightarrow> js_error" where
  "enoent p = Error (''ENOENT: no such file or directory, '' @ p)"

definition existsSync :: "filesystem \<Rightarrow> string \<Rightarrow> bool" where
  "existsSync fs p = (fs p \<noteq> None)"

definition unlinkSync :: "fill_env \<Rightarrow> string \<Rightarrow> filesystem \<Rightarrow> js_error + filesystem" where
  "unlinkSync env p fs =
     (case unlink_fault env p of
        Some err \<Rightarrow> Inl err
      | None \<Rightarrow> (case fs p of None \<Rightarrow> Inl (enoent p) | Some _ \<Rightarrow> Inr (fs(p := None))))"

definition writeFileSync ::
  "fill_env \<Rightarrow> string \<Rightarrow> string \<Rightarrow> filesystem \<Rightarrow> (js_error \<times> filesystem) + filesystem" where
  "writeFileSync env p content fs =
     (case write_fault env of
        None \<Rightarrow> Inr (fs(p \<mapsto> content))
      | Some (err, left) \<Rightarrow> Inl (err, case left of None \<Rightarrow> fs | Some part \<Rightarrow> fs(p \<mapsto> part)))"

definition readFile :: "fill_env \<Rightarrow> string \<Rightarrow> filesystem \<Rightarrow> js_error + string" where
  "readFile env p fs =
     (case read_fault env of
        Some err \<Rightarrow> Inl err
      | None \<Rightarrow> (case fs p of None \<Rightarrow> Inl (enoent p) | Some buf \<Rightarrow> Inr buf))"

definition fdfPath :: "fill_env \<Rightarrow> string" where
  "fdfPath env = path_join [tmpdir env, ''data_'' @ digits (now_fdf env) @ ''.fdf'']"

definition outPath :: "fill_env \<Rightarrow> string" where
  "outPath env = path_join [tmpdir env, ''out_'' @ digits (now_out env) @ ''.pdf'']"

definition cleanup :: "fill_env \<Rightarrow> filesystem \<Rightarrow> filesystem" where
  \<comment> \<open>one \<open>try\<close> around both removals: when the first one throws, the second is not tried\<close>
  "cleanup env fs =
     (case (if existsSync fs (fdfPath env) then unlinkSync env (fdfPath env) fs else Inr fs) of
        Inl err \<Rightarrow> fs
      | Inr fs1 \<Rightarrow>
          (case (if existsSync fs1 (outPath env) then unlinkSync env (outPath env) fs1 else Inr fs1) of
             Inl err \<Rightarrow> fs1
           | Inr fs2 \<Rightarrow> fs2))"

definition pdftk_fill :: "fill_env \<Rightarrow> string \<Rightarrow> string list" where
  "pdftk_fill env templatePath =
     [''pdftk'', templatePath, ''fill_form'', fdfPath env, ''output'', outPath env, ''flatten'']"

definition fillPdf ::
  "fill_env \<Rightarrow> string \<Rightarrow> (string \<times> field_value) list \<Rightarrow> world \<Rightarrow> string promise \<times> world" where
  \<comment> \<open>the revised \<open>fillPdf\<close>: every path runs \<open>cleanup\<close> before it settles the promise\<close>
  "fillPdf env templatePath data w =
     (case (case buildFdf data of
              Inl err \<Rightarrow> Inl (err, files w)
            | Inr doc \<Rightarrow> writeFileSync env (fdfPath env) doc (files w)) of
        Inl (err, fs) \<Rightarrow> (Rejected err, w\<lparr>files := cleanup env fs\<rparr>)
      | Inr fs \<Rightarrow>
          (let w1 = w\<lparr>spawned := spawned w @ [pdftk_fill env templatePath]\<rparr> in
           case child env of
             SpawnError err \<Rightarrow>
               (Rejected (Error (''pdftk spawn failed: '' @ message err)),
                w1\<lparr>files := cleanup env fs\<rparr>)
           | Exit code \<Rightarrow>
               (let fs' = child_writes env fs in
                if code \<noteq> Some 0 then
                  (Rejected (Error (''pdftk fill_form failed with exit code '' @ show_code code)),
                   w1\<lparr>files := cleanup env fs'\<rparr>)
                else
                  (case readFile env (outPath env) fs' of
                     Inl err \<Rightarrow> (Rejected err, w1\<lparr>files := cleanup env fs'\<rparr>)
                   | Inr buf \<Rightarrow> (Resolved buf, w1\<lparr>files := cleanup env fs'\<rparr>)))))"

definition unlink_ignoring :: "fill_env \<Rightarrow> string \<Rightarrow> filesystem \<Rightarrow> filesystem" where
  \<comment> \<open>\<open>fs.unlink(p, () => {})\<close>: the removal once it has run, its error dropped\<close>
  "unlink_ignoring env p fs = (case unlinkSync env p fs of Inl err \<Rightarrow> fs | Inr fs' \<Rightarrow> fs')"

definition fillPdf_original ::
  "fill_env \<Rightarrow> string \<Rightarrow> (string \<times> field_value) list \<Rightarrow> world \<Rightarrow> string promise \<times> world" where
  \<comment> \<open>\<open>fillPdf\<close> before the revision; the world is the one left when the two
      asynchronous removals it started have run\<close>
  "fillPdf_original env templatePath data w =
     (case (case buildFdf data of
              Inl err \<Rightarrow> Inl (err, files w)
            | Inr doc \<Rightarrow> writeFileSync env (fdfPath env) doc (files w)) of
        Inl (err, fs) \<Rightarrow> (Thrown err, w\<lparr>files := fs\<rparr>)
      | Inr fs \<Rightarrow>
          (let w1 = w\<lparr>spawned := spawned w @ [pdftk_fill env templatePath]\<rparr> in
           case child env of
             SpawnError err \<Rightarrow> (Uncaught err, w1\<lparr>files := fs\<rparr>)
           | Exit code \<Rightarrow>
               (let fs' = unlink_ignoring env (fdfPath env) (child_writes env fs) in
                if code \<noteq> Some 0 then
                  (Rejected (Error (''pdftk fill_form failed with exit code '' @ show_code code)),
                   w1\<lparr>files := fs'\<rparr>)
                else
                  (case readFile env (outPath env) fs' of
                     Inl err \<Rightarrow> (Rejected err, w1\<lparr>files := unlink_ignoring env (outPath env) fs'\<rparr>)
                   | Inr buf \<Rightarrow> (Resolved buf, w1\<lparr>files := unlink_ignoring env (outPath env) fs'\<rparr>)))))"

section \<open>The request handlers\<close>

text \<open>
  A handler returns the response it sends (\<open>None\<close> when an unhandled \<open>error\<close> event ends
  the process before any response) and the world it leaves. \<open>extractFields\<close> spawns
  \<open>pdftk ... dump_data_fields\<close>; how that promise settles is given by the caller of the
  model.
\<close>

datatype payload = JsonError string | JsonFields "string list" | PdfAttachment string

record response =
  status :: nat
  body :: payload

definition extractFields :: "string list promise \<Rightarrow> string \<Rightarrow> world \<Rightarrow> string list promise \<times> world" where
  "extractFields outcome templatePath w =
     (outcome, w\<lparr>spawned := spawned w @ [[''pdftk'', templatePath, ''dump_data_fields'']]\<rparr>)"

definition respond :: "'a promise \<Rightarrow> ('a \<Rightarrow> payload) \<Rightarrow> response option" where
  \<comment> \<open>\<open>await\<close> inside \<open>try\<close>: a rejection or an exception is answered with status 500\<close>
  "respond p ok =
     (case p of
        Resolved x \<Rightarrow> Some \<lparr>status = 200, body = ok x\<rparr>
      | Rejected err \<Rightarrow> Some \<lparr>status = 500, body = JsonError (message err)\<rparr>
      | Thrown err \<Rightarrow> Some \<lparr>status = 500, body = JsonError (message err)\<rparr>
      | Uncaught err \<Rightarrow> None)"

definition get_fields ::
  "string \<Rightarrow> string \<Rightarrow> string list promise \<Rightarrow> query_value \<Rightarrow> world \<Rightarrow> response option \<times> world" where
  \<comment> \<open>\<open>GET /fields\<close>\<close>
  "get_fields ORIG_ROOT cwd outcome template w =
     (if \<not> truthy template then
        (Some \<lparr>status = 400, body = JsonError ''template query parameter is required''\<rparr>, w)
      else
        (case validateTemplatePath ORIG_ROOT cwd template of
           None \<Rightarrow> (Some \<lparr>status = 400, body = JsonError ''invalid template path''\<rparr>, w)
         | Some p \<Rightarrow>
             if \<not> existsSync (files w) p then
               (Some \<lparr>status = 404, body = JsonError ''template not found''\<rparr>, w)
             else
               (case extractFields outcome p w of
                  (settled, w') \<Rightarrow> (respond settled JsonFields, w'))))"

definition post_submit ::
  "string \<Rightarrow> string \<Rightarrow> fill_env \<Rightarrow> query_value \<Rightarrow> (string \<times> field_value) list \<Rightarrow> world \<Rightarrow>
   response option \<times> world" where
  \<comment> \<open>\<open>POST /submit\<close>; \<open>data\<close> is \<open>req.body || {}\<close>\<close>
  "post_submit ORIG_ROOT cwd env template data w =
     (if \<not> truthy template then
        (Some \<lparr>status = 400, body = JsonError ''template query parameter is required''\<rparr>, w)
      else
        (case validateTemplatePath ORIG_ROOT cwd template of
           None \<Rightarrow> (Some \<lparr>status = 400, body = JsonError ''invalid template path''\<rparr>, w)
         | Some p \<Rightarrow>
             if \<not> existsSync (files w) p then
               (Some \<lparr>status = 404, body = JsonError ''template not found''\<rparr>, w)
             else
               (case fillPdf env p data w of
                  (settled, w') \<Rightarrow> (respond settled PdfAttachment, w'))))"

section \<open>Notions used in the proofs\<close>

text \<open>
  The segments of a path string (its pieces between slashes, the empty ones left out);
  the segments that \<open>path.normalize\<close> and \<open>path.resolve\<close> compute before they render
  them; and the invariants of the segment stack.
\<close>

definition kept :: "string list \<Rightarrow> bool" where
  \<comment> \<open>no segment of the stack is empty or \<open>.\<close>\<close>
  "kept res = list_all (\<lambda>s. s \<noteq> [] \<and> s \<noteq> ''.'') res"

definition sep_free :: "char \<Rightarrow> string list \<Rightarrow> bool" where
  \<comment> \<open>no segment contains the separator\<close>
  "sep_free c res = list_all (\<lambda>s. c \<notin> set s) res"

definition resolved_segs :: "string \<Rightarrow> string \<Rightarrow> string list" where
  "resolved_segs cwd p =
     norm_segs False [] ((if path_isAbsolute p then [] else split_on (CHR ''/'') cwd) @ split_on (CHR ''/'') p)"

definition path_segments :: "string \<Rightarrow> string list" where
  "path_segments p = filter (\<lambda>s. s \<noteq> []) (split_on (CHR ''/'') p)"

definition normalized_segs :: "string \<Rightarrow> string list" where
  "normalized_segs q = norm_segs (\<not> path_isAbsolute q) [] (split_on (CHR ''/'') q)"

definition inner_segs :: "string \<Rightarrow> string list" where
  "inner_segs n = filter (\<lambda>s. s \<noteq> [] \<and> s \<noteq> ''.'') (split_on (CHR ''/'') n)"

definition file_name :: "string \<Rightarrow> bool" where
  \<comment> \<open>a single path segment that normalization keeps\<close>
  "file_name n = (CHR ''/'' \<notin> set n \<and> n \<noteq> [] \<and> n \<noteq> ''.'' \<and> n \<noteq> ''..'')"

definition removable :: "fill_env \<Rightarrow> bool" where
  \<comment> \<open>removing either temporary file does not fail\<close>
  "removable env = (unlink_fault env (fdfPath env) = None \<and> unlink_fault env (outPath env) = None)"

definition plain_value :: "field_value \<Rightarrow> bool" where
  \<comment> \<open>a string, \<open>null\<close> or \<open>undefined\<close>\<close>
  "plain_value v = (case v of JOther r \<Rightarrow> False | _ \<Rightarrow> True)"

definition value_text :: "field_value \<Rightarrow> string" where
  \<comment> \<open>the text of a plain value: the empty string when the value is absent\<close>
  "value_text v = (case v of JString s \<Rightarrow> s | _ \<Rightarrow> [])"

definition escape_char :: "char \<Rightarrow> string" where
  \<comment> \<open>what the three single-character replacements make of one character\<close>
  "escape_char x =
     (if x = BSL then [BSL, BSL]
      else if x = CHR ''('' then [BSL, CHR ''('']
      else if x = CHR '')'' then [BSL, CHR '')'']
      else [x])"

text \<open>
  A sample environment and world for the concrete instances: the temporary directory is
  \<open>/tmp\<close>, both clock readings are the same value, nothing fails, and the subprocess
  leaves a filled PDF at the output path before it ends as given.
\<close>

definition sample_env :: "nat \<Rightarrow> child_outcome \<Rightarrow> fill_env" where
  "sample_env now outcome =
     \<lparr>tmpdir = ''/tmp'', now_fdf = now, now_out = now, write_fault = None, child = outcome,
      child_writes = (\<lambda>fs. fs(path_join [''/tmp'', ''out_'' @ digits now @ ''.pdf''] \<mapsto> ''%PDF-1.4 filled'')),
      read_fault = None, unlink_fault = (\<lambda>p. None)\<rparr>"

definition sample_world :: world where
  "sample_world = \<lparr>files = [''/templates/fire.pdf'' \<mapsto> ''%PDF-1.4 form''], spawned = []\<rparr>"

text \<open>
  The same environment in which removing the intermediate file fails (the file cannot be
  unlinked), while every other removal works.
\<close>

definition locked_env :: "child_outcome \<Rightarrow> fill_env" where
  "locked_env outcome =
     (sample_env 1700000000000 outcome)
       \<lparr>unlink_fault :=
          (\<lambda>p. if p = ''/tmp/data_1700000000000.fdf''
               then Some (Error ''EPERM: operation not permitted, unlink'') else None)\<rparr>"

section \<open>Splitting and joining\<close>

lemma split_on_nonempty: "split_on c s \<noteq> []"
  by (induction s) (auto split: list.splits)

lemma str_includes_iff: "str_includes s sub \<longleftrightarrow> (\<exists>u v. s = u @ sub @ v)"
proof (induction s)
  case Nil
  then show ?case by auto
next
  case (Cons c s)
  show ?case
  proof
    assume "str_includes (c # s) sub"
    then consider "prefix sub (c # s)" | "str_includes s sub" by auto
    then show "\<exists>u v. c # s = u @ sub @ v"
    proof cases
      case 1
      then obtain v where "c # s = sub @ v" by (auto simp: prefix_def)
      then have "c # s = [] @ sub @ v" by simp
      then show ?thesis by blast
    next
      case 2
      then obtain u v where "s = u @ sub @ v" using Cons.IH by blast
      then have "c # s = (c # u) @ sub @ v" by simp
      then show ?thesis by blast
    qed
  next
    assume "\<exists>u v. c # s = u @ sub @ v"
    then obtain u v where uv: "c # s = u @ sub @ v" by blast
    show "str_includes (c # s) sub"
    proof (cases u)
      case Nil
      then have "prefix sub (c # s)" using uv by (simp add: prefix_def)
      then show ?thesis by simp
    next
      case (Cons a u')
      then have "s = u' @ sub @ v" using uv by simp
      then show ?thesis using Cons.IH by auto
    qed
  qed
qed

lemma split_on_sep_free: "s \<in> set (split_on c p) \<Longrightarrow> c \<notin> set s"
  by (induction p arbitrary: s) (auto split: if_splits list.splits)

lemma split_on_append: "split_on c (a @ c # b) = split_on c a @ split_on c b"
  by (induction a) (auto split: list.splits simp: split_on_nonempty)

lemma split_on_no_sep: "c \<notin> set s \<Longrightarrow> split_on c s = [s]"
  by (induction s) auto

lemma join_with_Cons: "ss \<noteq> [] \<Longrightarrow> join_with sep (s # ss) = s @ sep @ join_with sep ss"
  by (cases ss) auto

lemma split_on_join:
  "segs \<noteq> [] \<Longrightarrow> \<forall>s\<in>set segs. c \<notin> set s \<Longrightarrow> split_on c (join_with [c] segs) = segs"
proof (induction segs)
  case Nil
  then show ?case by simp
next
  case (Cons s segs)
  show ?case
  proof (cases segs)
    case Nil
    then show ?thesis using Cons.prems by (simp add: split_on_no_sep)
  next
    case (Cons t ts)
    then have "join_with [c] (s # segs) = s @ c # join_with [c] segs"
      by simp
    then show ?thesis
      using Cons.IH Cons.prems Cons by (simp add: split_on_append split_on_no_sep)
  qed
qed

lemma join_split: "join_with [c] (split_on c p) = p"
proof (induction p)
  case Nil
  then show ?case by simp
next
  case (Cons x xs)
  obtain y ys where sp: "split_on c xs = y # ys"
    using split_on_nonempty [of c xs] by (cases "split_on c xs") auto
  show ?case
  proof (cases "x = c")
    case True
    then show ?thesis using Cons.IH sp by simp
  next
    case False
    then show ?thesis using Cons.IH sp by (cases ys) auto
  qed
qed

lemma piece_occurs_in_join: "s \<in> set segs \<Longrightarrow> \<exists>u v. join_with sep segs = u @ s @ v"
proof (induction segs)
  case Nil
  then show ?case by simp
next
  case (Cons t ts)
  show ?case
  proof (cases "ts = []")
    case True
    then have "join_with sep (t # ts) = [] @ s @ []" using Cons.prems by simp
    then show ?thesis by blast
  next
    case False
    then have j: "join_with sep (t # ts) = t @ sep @ join_with sep ts"
      by (rule join_with_Cons)
    show ?thesis
    proof (cases "s = t")
      case True
      then have "join_with sep (t # ts) = [] @ s @ (sep @ join_with sep ts)" using j by simp
      then show ?thesis by blast
    next
      case False
      then have "s \<in> set ts" using Cons.prems by simp
      then obtain u v where "join_with sep ts = u @ s @ v" using Cons.IH by blast
      then have "join_with sep (t # ts) = (t @ sep @ u) @ s @ v" using j by simp
      then show ?thesis by blast
    qed
  qed
qed

lemma split_on_piece_included: "s \<in> set (split_on c p) \<Longrightarrow> str_includes p s"
  using piece_occurs_in_join [of s "split_on c p" "[c]"] by (simp add: join_split str_includes_iff)

section \<open>Normalization on segments\<close>

lemma norm_segs_append:
  "norm_segs a res (xs @ ys) = norm_segs a (norm_segs a res xs) ys"
  by (induction xs arbitrary: res) auto

lemma list_all_butlast: "list_all P xs \<Longrightarrow> list_all P (butlast xs)"
  by (induction xs) auto

lemma norm_segs_preserves:
  assumes "list_all Q res"
    and "list_all (\<lambda>s. s \<noteq> [] \<and> s \<noteq> ''.'' \<and> (s = ''..'' \<longrightarrow> a) \<longrightarrow> Q s) xs"
  shows "list_all Q (norm_segs a res xs)"
  using assms
proof (induction xs arbitrary: res)
  case Nil
  then show ?case by simp
next
  case (Cons s ss)
  have ss: "list_all (\<lambda>s. s \<noteq> [] \<and> s \<noteq> ''.'' \<and> (s = ''..'' \<longrightarrow> a) \<longrightarrow> Q s) ss"
    and s: "s \<noteq> [] \<and> s \<noteq> ''.'' \<and> (s = ''..'' \<longrightarrow> a) \<longrightarrow> Q s"
    using Cons.prems(2) by simp_all
  have 1: "list_all Q (norm_segs a res ss)" using Cons.IH Cons.prems(1) ss by blast
  have 2: "list_all Q (norm_segs a (butlast res) ss)"
    using Cons.IH list_all_butlast [OF Cons.prems(1)] ss by blast
  have 3: "list_all Q (norm_segs a (res @ [s]) ss)"
    if "s \<noteq> []" "s \<noteq> ''.''" "s = ''..'' \<longrightarrow> a"
  proof -
    have "list_all Q (res @ [s])" using Cons.prems(1) s that by simp
    then show ?thesis using Cons.IH ss by blast
  qed
  show ?case
  proof (cases "s = [] \<or> s = ''.''")
    case True
    then show ?thesis using 1 by auto
  next
    case False
    then show ?thesis using 1 2 3 by (cases "s = ''..''") auto
  qed
qed

lemma kept_norm_segs_aux:
  "list_all (\<lambda>s. s \<noteq> [] \<and> s \<noteq> ''.'') res \<Longrightarrow>
   list_all (\<lambda>s. s \<noteq> [] \<and> s \<noteq> ''.'') (norm_segs a res xs)"
  by (rule norm_segs_preserves) (simp_all add: list_all_iff)

lemma norm_segs_false_above_free:
  "list_all (\<lambda>s. s \<noteq> ''..'') res \<Longrightarrow> list_all (\<lambda>s. s \<noteq> ''..'') (norm_segs False res xs)"
  by (rule norm_segs_preserves) (simp_all add: list_all_iff)

lemma norm_segs_sep_free_aux:
  "list_all (\<lambda>s. c \<notin> set s) res \<Longrightarrow> list_all (\<lambda>s. c \<notin> set s) xs \<Longrightarrow>
   list_all (\<lambda>s. c \<notin> set s) (norm_segs a res xs)"
  by (rule norm_segs_preserves) (simp_all add: list_all_iff)

lemma norm_segs_no_dotdot:
  "list_all (\<lambda>s. s \<noteq> ''..'') ys \<Longrightarrow>
   norm_segs a res ys = res @ filter (\<lambda>s. s \<noteq> [] \<and> s \<noteq> ''.'') ys"
  by (induction ys arbitrary: res) simp_all

lemma kept_norm_segs: "kept res \<Longrightarrow> kept (norm_segs a res xs)"
  unfolding kept_def by (rule kept_norm_segs_aux)

lemma norm_segs_sep_free:
  "sep_free c res \<Longrightarrow> sep_free c xs \<Longrightarrow> sep_free c (norm_segs a res xs)"
  unfolding sep_free_def by (rule norm_segs_sep_free_aux)

lemma sep_free_split_on: "sep_free c (split_on c p)"
  using split_on_sep_free [of _ c p] by (auto simp: sep_free_def list_all_iff)

lemma norm_segs_renorm:
  "kept S \<Longrightarrow> norm_segs b C (norm_segs True S xs) = norm_segs b C (S @ xs)"
proof (induction xs arbitrary: S)
  case Nil
  then show ?case by simp
next
  case (Cons x xs)
  show ?case
  proof (cases "x = [] \<or> x = ''.''")
    case True
    have "norm_segs b C (S @ x # xs) = norm_segs b (norm_segs b (norm_segs b C S) [x]) xs"
      using norm_segs_append [of b C S "x # xs"] norm_segs_append [of b "norm_segs b C S" "[x]" xs] by simp
    also have "\<dots> = norm_segs b C (S @ xs)" using True by (auto simp: norm_segs_append)
    finally show ?thesis using True Cons by auto
  next
    case False
    note nx = this
    show ?thesis
    proof (cases "x = ''..''")
      case False
      have "kept (S @ [x])" using Cons.prems nx by (simp add: kept_def)
      then have "norm_segs b C (norm_segs True (S @ [x]) xs) = norm_segs b C ((S @ [x]) @ xs)"
        by (rule Cons.IH)
      then show ?thesis using nx False by simp
    next
      case True
      show ?thesis
      proof (cases "S \<noteq> [] \<and> last S \<noteq> ''..''")
        case False
        have "kept (S @ [x])" using Cons.prems True by (simp add: kept_def)
        then have "norm_segs b C (norm_segs True (S @ [x]) xs) = norm_segs b C ((S @ [x]) @ xs)"
          by (rule Cons.IH)
        then show ?thesis using True False by auto
      next
        case pop: True
        then obtain S' p where S: "S = S' @ [p]" by (metis append_butlast_last_id)
        have p: "p \<noteq> [] \<and> p \<noteq> ''.'' \<and> p \<noteq> ''..''" using pop S Cons.prems by (simp add: kept_def)
        have k: "kept S'" using Cons.prems S by (simp add: kept_def)
        have "norm_segs b C (S @ x # xs) = norm_segs b (norm_segs b (norm_segs b C S') [p, x]) xs"
          using S norm_segs_append [of b C S' "[p, x] @ xs"] norm_segs_append [of b "norm_segs b C S'" "[p, x]" xs]
          by simp
        also have "norm_segs b (norm_segs b C S') [p, x] = norm_segs b C S'"
          using p True by simp
        also have "norm_segs b (norm_segs b C S') xs = norm_segs b C (S' @ xs)"
          by (simp add: norm_segs_append)
        finally have r: "norm_segs b C (S @ x # xs) = norm_segs b C (S' @ xs)" .
        have "norm_segs b C (norm_segs True S (x # xs)) = norm_segs b C (norm_segs True S' xs)"
          using pop True S by simp
        also have "\<dots> = norm_segs b C (S' @ xs)" using k by (rule Cons.IH)
        finally show ?thesis using r by simp
      qed
    qed
  qed
qed

section \<open>\<open>path.normalize\<close>, \<open>path.join\<close> and \<open>path.resolve\<close>\<close>

lemma norm_segs_snoc_empty: "norm_segs a res (xs @ [[]]) = norm_segs a res xs"
  by (simp add: norm_segs_append)

lemma split_on_snoc_sep: "split_on c (p @ [c]) = split_on c p @ [[]]"
  using split_on_append [of c p "[]"] by simp

lemma path_resolve_absolute:
  assumes "path_isAbsolute cwd"
  shows "path_resolve cwd p = ''/'' @ join_with ''/'' (resolved_segs cwd p)"
proof -
  have cwd: "cwd \<noteq> []" "hd cwd = CHR ''/''" using assms by (simp_all add: path_isAbsolute_def)
  show ?thesis
  proof (cases "p = []")
    case True
    then show ?thesis
      using cwd by (simp add: path_resolve_def resolved_segs_def normalizeString_def
          path_isAbsolute_def split_on_snoc_sep norm_segs_snoc_empty)
  next
    case False
    show ?thesis
    proof (cases "hd p = CHR ''/''")
      case True
      then show ?thesis
        using False by (simp add: path_resolve_def resolved_segs_def normalizeString_def
            path_isAbsolute_def split_on_snoc_sep norm_segs_snoc_empty)
    next
      case rel: False
      have "split_on (CHR ''/'') (cwd @ CHR ''/'' # p @ ''/'') =
            (split_on (CHR ''/'') cwd @ split_on (CHR ''/'') p) @ [[]]"
        by (simp add: split_on_append split_on_snoc_sep)
      then show ?thesis
        using False rel cwd
        by (simp add: path_resolve_def resolved_segs_def normalizeString_def
            path_isAbsolute_def norm_segs_snoc_empty del: append_assoc)
    qed
  qed
qed

lemma join_with_empty_kept: "kept R \<Longrightarrow> join_with sep R = [] \<Longrightarrow> R = []"
proof (cases R)
  case Nil
  then show ?thesis by simp
next
  case (Cons s ss)
  assume "kept R" "join_with sep R = []"
  then show ?thesis using Cons by (cases ss) (simp_all add: kept_def)
qed

lemma hd_join_with: "R \<noteq> [] \<Longrightarrow> hd R \<noteq> [] \<Longrightarrow> hd (join_with sep R) = hd (hd R)"
proof (cases R)
  case Nil
  assume "R \<noteq> []" then show ?thesis using Nil by simp
next
  case (Cons s ss)
  assume "hd R \<noteq> []"
  then show ?thesis using Cons by (cases ss) simp_all
qed

lemma normalized_segs_kept: "kept (normalized_segs q)"
  unfolding normalized_segs_def by (rule kept_norm_segs) (simp add: kept_def)

lemma normalized_segs_sep_free: "sep_free (CHR ''/'') (normalized_segs q)"
  unfolding normalized_segs_def
  by (rule norm_segs_sep_free) (simp_all add: sep_free_def sep_free_split_on [unfolded sep_free_def])

lemma path_normalize_cases:
  "path_normalize q =
     (if normalized_segs q = [] then
        (if path_isAbsolute q then ''/'' else if q \<noteq> [] \<and> last q = CHR ''/'' then ''./'' else ''.'')
      else (if path_isAbsolute q then ''/'' else []) @ join_with ''/'' (normalized_segs q) @
           (if last q = CHR ''/'' then ''/'' else []))"
proof (cases "q = []")
  case True
  then show ?thesis by (simp add: path_normalize_def normalized_segs_def path_isAbsolute_def)
next
  case False
  have e: "(join_with ''/'' (normalized_segs q) = []) = (normalized_segs q = [])"
    using join_with_empty_kept [OF normalized_segs_kept] by auto
  show ?thesis
    using False e
    by (simp add: path_normalize_def normalizeString_def Let_def path_isAbsolute_def
        normalized_segs_def)
qed

lemma split_join_segs:
  "sep_free c R \<Longrightarrow> R \<noteq> [] \<Longrightarrow> split_on c (join_with [c] R) = R"
  by (rule split_on_join) (simp_all add: sep_free_def list_all_iff)

lemma path_normalize_isAbsolute: "path_isAbsolute (path_normalize q) = path_isAbsolute q"
proof (cases "normalized_segs q = []")
  case True
  then show ?thesis by (simp add: path_normalize_cases path_isAbsolute_def)
next
  case False
  have "hd (normalized_segs q) \<noteq> []" "CHR ''/'' \<notin> set (hd (normalized_segs q))"
    using False normalized_segs_kept [of q] normalized_segs_sep_free [of q]
    by (cases "normalized_segs q"; simp add: kept_def sep_free_def)+
  then have "hd (hd (normalized_segs q)) \<noteq> CHR ''/''"
    by (cases "hd (normalized_segs q)") auto
  then have "hd (join_with ''/'' (normalized_segs q)) \<noteq> CHR ''/''"
    using False \<open>hd (normalized_segs q) \<noteq> []\<close> by (simp add: hd_join_with)
  moreover have "join_with ''/'' (normalized_segs q) \<noteq> []"
    using False join_with_empty_kept [OF normalized_segs_kept] by blast
  ultimately show ?thesis
    using False by (simp add: path_normalize_cases path_isAbsolute_def)
qed

lemma norm_segs_split_normalize:
  "norm_segs b C (split_on (CHR ''/'') (path_normalize q)) = norm_segs b C (normalized_segs q)"
proof (cases "normalized_segs q = []")
  case True
  then show ?thesis by (simp add: path_normalize_cases)
next
  case False
  let ?R = "normalized_segs q"
  have sp: "split_on (CHR ''/'') (join_with ''/'' ?R) = ?R"
    using split_join_segs [OF normalized_segs_sep_free False] by simp
  have a: "split_on (CHR ''/'') (join_with ''/'' ?R @ ''/'') = ?R @ [[]]"
    using split_on_snoc_sep [of "CHR ''/''" "join_with ''/'' ?R"] sp by simp
  show ?thesis
    using False sp a by (simp add: path_normalize_cases norm_segs_snoc_empty)
qed

lemma norm_segs_settled:
  assumes "kept R" and "list_all (\<lambda>s. s \<noteq> ''..'') R"
  shows "norm_segs a res R = res @ R"
proof -
  have "filter (\<lambda>s. s \<noteq> [] \<and> s \<noteq> ''.'') R = R"
    using assms(1) by (simp add: kept_def list_all_iff filter_id_conv)
  then show ?thesis using norm_segs_no_dotdot [OF assms(2), of a res] by simp
qed

lemma resolved_segs_normalize:
  "resolved_segs cwd (path_normalize q) = resolved_segs cwd q"
proof (cases "path_isAbsolute q")
  case True
  have R: "normalized_segs q = norm_segs False [] (split_on (CHR ''/'') q)"
    using True by (simp add: normalized_segs_def)
  have "list_all (\<lambda>s. s \<noteq> ''..'') (normalized_segs q)"
    unfolding R by (rule norm_segs_false_above_free) simp
  then have "norm_segs False [] (normalized_segs q) = normalized_segs q"
    using norm_segs_settled [OF normalized_segs_kept, of q False "[]"] by simp
  then show ?thesis
    using True R
    by (simp add: resolved_segs_def path_normalize_isAbsolute norm_segs_split_normalize)
next
  case False
  let ?C = "norm_segs False [] (split_on (CHR ''/'') cwd)"
  have "resolved_segs cwd (path_normalize q) = norm_segs False ?C (normalized_segs q)"
    using False
    by (simp add: resolved_segs_def path_normalize_isAbsolute norm_segs_append
        norm_segs_split_normalize)
  also have "\<dots> = norm_segs False ?C ([] @ split_on (CHR ''/'') q)"
    using False norm_segs_renorm [of "[]" False ?C "split_on (CHR ''/'') q"]
    by (simp add: normalized_segs_def kept_def)
  also have "\<dots> = resolved_segs cwd q"
    using False by (simp add: resolved_segs_def norm_segs_append)
  finally show ?thesis .
qed

lemma resolved_segs_kept: "kept (resolved_segs cwd p)"
  unfolding resolved_segs_def by (rule kept_norm_segs) (simp add: kept_def)

lemma resolved_segs_sep_free: "sep_free (CHR ''/'') (resolved_segs cwd p)"
  unfolding resolved_segs_def
  by (rule norm_segs_sep_free)
    (simp_all add: sep_free_def sep_free_split_on [unfolded sep_free_def])

lemma pieces_without_dotdot:
  assumes "\<not> str_includes n ''..''"
  shows "list_all (\<lambda>s. s \<noteq> ''..'') (split_on (CHR ''/'') n)"
  using assms split_on_piece_included [of "''..''" "CHR ''/''" n]
  by (auto simp: list_all_iff)

lemma resolved_segs_join:
  assumes n: "n \<noteq> []" "\<not> path_isAbsolute n"
    and nd: "list_all (\<lambda>s. s \<noteq> ''..'') (split_on (CHR ''/'') n)"
  shows "resolved_segs cwd (path_join [root, n]) = resolved_segs cwd root @ inner_segs n"
proof (cases "root = []")
  case True
  have "resolved_segs cwd (path_join [root, n]) = resolved_segs cwd n"
    using True n(1) by (simp add: path_join_def resolved_segs_normalize)
  also have "\<dots> = norm_segs False [] (split_on (CHR ''/'') cwd) @ inner_segs n"
    using n(2) norm_segs_no_dotdot [OF nd]
    by (simp add: resolved_segs_def norm_segs_append inner_segs_def)
  also have "norm_segs False [] (split_on (CHR ''/'') cwd) = resolved_segs cwd root"
    using True by (simp add: resolved_segs_def path_isAbsolute_def norm_segs_snoc_empty)
  finally show ?thesis .
next
  case False
  let ?q = "root @ CHR ''/'' # n"
  have abs: "path_isAbsolute ?q = path_isAbsolute root"
    using False by (simp add: path_isAbsolute_def)
  have "resolved_segs cwd (path_join [root, n]) = resolved_segs cwd ?q"
    using False n(1) by (simp add: path_join_def resolved_segs_normalize)
  also have "\<dots> = norm_segs False (resolved_segs cwd root) (split_on (CHR ''/'') n)"
    by (simp add: resolved_segs_def abs split_on_append norm_segs_append)
  also have "\<dots> = resolved_segs cwd root @ inner_segs n"
    using norm_segs_no_dotdot [OF nd] by (simp add: inner_segs_def)
  finally show ?thesis .
qed

lemma join_with_append_prefix: "prefix (join_with sep X) (join_with sep (X @ P))"
proof (induction X)
  case Nil
  then show ?case by simp
next
  case (Cons x X)
  show ?case
  proof (cases "X = []")
    case True
    then show ?thesis by (cases P) simp_all
  next
    case False
    then show ?thesis using Cons by (simp add: join_with_Cons)
  qed
qed

lemma path_segments_rendered:
  assumes "kept X" and "sep_free (CHR ''/'') X"
  shows "path_segments (''/'' @ join_with ''/'' X) = X"
proof (cases "X = []")
  case True
  then show ?thesis by (simp add: path_segments_def)
next
  case False
  have "split_on (CHR ''/'') (join_with ''/'' X) = X"
    using split_join_segs [OF assms(2) False] by simp
  moreover have "filter (\<lambda>s. s \<noteq> []) X = X"
    using assms(1) by (simp add: kept_def list_all_iff filter_id_conv)
  ultimately show ?thesis by (simp add: path_segments_def)
qed

lemma path_normalize_nonempty: "path_normalize q \<noteq> []"
  by (simp add: path_normalize_def Let_def)

text \<open>The examples of the Node.js documentation, and the corner cases of \<open>normalize\<close>.\<close>

lemma node_documentation_examples:
  "path_normalize ''/foo/bar//baz/asdf/quux/..'' = ''/foo/bar/baz/asdf''"
  "path_join [''/foo'', ''bar'', ''baz/asdf'', ''quux'', ''..''] = ''/foo/bar/baz/asdf''"
  "path_isAbsolute ''/foo/bar''" "path_isAbsolute ''/baz/..''"
  "\<not> path_isAbsolute ''qux/''" "\<not> path_isAbsolute ''.''"
  "path_resolve ''/home/myself/node'' ''wwwroot/../static'' = ''/home/myself/node/static''"
  "path_resolve ''/home/myself/node'' ''/foo/bar/./baz/'' = ''/foo/bar/baz''"
  by (simp_all add: path_normalize_def path_join_def path_isAbsolute_def path_resolve_def
      normalizeString_def)

lemma normalize_corner_cases:
  "path_normalize [] = ''.''" "path_normalize ''./'' = ''./''" "path_normalize ''a/..'' = ''.''"
  "path_normalize ''..'' = ''..''" "path_normalize ''../'' = ''../''" "path_normalize ''/..'' = ''/''"
  "path_normalize ''a//b/'' = ''a/b/''" "path_normalize ''a/.../b'' = ''a/.../b''"
  "path_normalize ''../../a/../b'' = ''../../b''"
  by (simp_all add: path_normalize_def normalizeString_def)

section \<open>What \<open>validateTemplatePath\<close> accepts\<close>

lemma validate_accepts:
  assumes "path_isAbsolute cwd" and "t \<noteq> []"
    and "\<not> str_includes (path_normalize t) ''..''"
    and "\<not> path_isAbsolute (path_normalize t)"
  shows "validateTemplatePath root cwd (QString t) = Some (path_join [root, path_normalize t])"
proof -
  let ?n = "path_normalize t"
  have ne: "?n \<noteq> []" by (rule path_normalize_nonempty)
  have "\<not> prefix ''..'' ?n"
    using assms(3) str_includes_iff [of ?n "''..''"] by (auto simp: prefix_def)
  moreover have "prefix (path_resolve cwd root) (path_resolve cwd (path_join [root, ?n]))"
    using resolved_segs_join [OF ne assms(4) pieces_without_dotdot [OF assms(3)], of cwd root]
    by (simp add: path_resolve_absolute [OF assms(1)] join_with_append_prefix)
  ultimately show ?thesis
    using assms by (simp add: validateTemplatePath_def truthy_def str_startsWith_def)
qed

lemma validate_Some_iff:
  "validateTemplatePath root cwd v = Some p \<Longrightarrow>
   \<exists>t. v = QString t \<and> t \<noteq> [] \<and> \<not> str_includes (path_normalize t) ''..'' \<and>
       \<not> path_isAbsolute (path_normalize t) \<and> p = path_join [root, path_normalize t]"
  by (cases v) (auto simp: validateTemplatePath_def truthy_def Let_def split: if_splits)

lemma validate_rejects:
  "t = [] \<or> str_includes (path_normalize t) ''..'' \<or> path_isAbsolute (path_normalize t) \<Longrightarrow>
   validateTemplatePath root cwd (QString t) = None"
  by (auto simp: validateTemplatePath_def truthy_def Let_def)

lemma sibling_shares_only_the_raw_prefix:
  "str_startsWith ''/root-evil/x'' ''/root'' \<and>
   \<not> prefix (path_segments ''/root'') (path_segments ''/root-evil/x'')"
  by (simp add: str_startsWith_def path_segments_def)

text \<open>
  C1. Whenever \<open>validateTemplatePath\<close> returns a path, the segments of its canonical
  resolution start with the segments of the canonical resolution of the root: the
  resolved path is the resolved root or lies below it segment by segment, so a sibling
  that only shares a string prefix with the root (\<open>/root-evil\<close> against \<open>/root\<close>) is never
  returned. The working directory is absolute, as \<open>process.cwd()\<close> is.
\<close>

theorem validateTemplatePath_contained:
  assumes "path_isAbsolute cwd" and "validateTemplatePath ORIG_ROOT cwd template = Some p"
  shows "prefix (path_segments (path_resolve cwd ORIG_ROOT)) (path_segments (path_resolve cwd p))"
proof -
  obtain t where t: "t \<noteq> []" "\<not> str_includes (path_normalize t) ''..''"
    "\<not> path_isAbsolute (path_normalize t)" "p = path_join [ORIG_ROOT, path_normalize t]"
    using validate_Some_iff [OF assms(2)] by blast
  have ne: "path_normalize t \<noteq> []" by (rule path_normalize_nonempty)
  have "path_segments (path_resolve cwd p) =
        resolved_segs cwd ORIG_ROOT @ inner_segs (path_normalize t)"
    using resolved_segs_join [OF ne t(3) pieces_without_dotdot [OF t(2)], of cwd ORIG_ROOT] t(4)
      path_segments_rendered [OF resolved_segs_kept resolved_segs_sep_free, of cwd p]
    by (simp add: path_resolve_absolute [OF assms(1)])
  moreover have "path_segments (path_resolve cwd ORIG_ROOT) = resolved_segs cwd ORIG_ROOT"
    using path_segments_rendered [OF resolved_segs_kept resolved_segs_sep_free, of cwd ORIG_ROOT]
    by (simp add: path_resolve_absolute [OF assms(1)])
  ultimately show ?thesis by simp
qed

theorem validateTemplatePath_contained_witness:
  "validateTemplatePath ''/templates'' ''/srv'' (QString ''forms/./fire.pdf'') =
     Some ''/templates/forms/fire.pdf'' \<and>
   path_segments (path_resolve ''/srv'' ''/templates/forms/fire.pdf'') =
     [''templates'', ''forms'', ''fire.pdf''] \<and>
   prefix (path_segments (path_resolve ''/srv'' ''/templates''))
     (path_segments (path_resolve ''/srv'' ''/templates/forms/fire.pdf''))"
proof -
  have a: "path_isAbsolute ''/srv''" by (simp add: path_isAbsolute_def)
  have b: "validateTemplatePath ''/templates'' ''/srv'' (QString ''forms/./fire.pdf'') =
           Some ''/templates/forms/fire.pdf''"
    by (simp add: validateTemplatePath_def truthy_def path_normalize_def normalizeString_def
        str_startsWith_def path_isAbsolute_def path_join_def path_resolve_def)
  have c: "path_segments (path_resolve ''/srv'' ''/templates/forms/fire.pdf'') =
           [''templates'', ''forms'', ''fire.pdf'']"
    by (simp add: path_segments_def path_resolve_def normalizeString_def)
  show ?thesis using b c validateTemplatePath_contained [OF a b] by simp
qed

text \<open>
  C5, as the code has it. With an absolute working directory, \<open>validateTemplatePath\<close>
  accepts a candidate string exactly when it is not empty and its normalization is not
  absolute and does not contain two consecutive dots anywhere, and it then returns the
  root joined with the normalized candidate. A normalized candidate with \<open>..\<close> inside a
  longer file name, such as \<open>file..pdf\<close>, is rejected by the \<open>includes('..')\<close> guard.
\<close>

theorem validateTemplatePath_decides:
  assumes "path_isAbsolute cwd"
  shows "validateTemplatePath ORIG_ROOT cwd (QString t) =
           (if t \<noteq> [] \<and> \<not> str_includes (path_normalize t) ''..'' \<and>
               \<not> path_isAbsolute (path_normalize t)
            then Some (path_join [ORIG_ROOT, path_normalize t]) else None)"
proof (cases "t \<noteq> [] \<and> \<not> str_includes (path_normalize t) ''..'' \<and>
    \<not> path_isAbsolute (path_normalize t)")
  case True
  then show ?thesis using validate_accepts [OF assms, of t ORIG_ROOT] by simp
next
  case False
  then have "validateTemplatePath ORIG_ROOT cwd (QString t) = None"
    by (intro validate_rejects) blast
  then show ?thesis using False by simp
qed

theorem validateTemplatePath_decides_witness:
  "validateTemplatePath ''/templates'' ''/srv'' (QString ''forms//fire.v2.pdf'') =
     Some ''/templates/forms/fire.v2.pdf''"
proof -
  have a: "path_isAbsolute ''/srv''" by (simp add: path_isAbsolute_def)
  show ?thesis
    using validateTemplatePath_decides [OF a, of "''/templates''" "''forms//fire.v2.pdf''"]
    by (simp add: path_normalize_def normalizeString_def path_isAbsolute_def path_join_def)
qed

theorem file_dotdot_pdf_rejected:
  "path_normalize ''file..pdf'' = ''file..pdf'' \<and>
   \<not> path_isAbsolute (path_normalize ''file..pdf'') \<and>
   \<not> str_startsWith (path_normalize ''file..pdf'') ''..'' \<and>
   path_join [''/templates'', path_normalize ''file..pdf''] = ''/templates/file..pdf'' \<and>
   validateTemplatePath ''/templates'' ''/srv'' (QString ''file..pdf'') = None"
  by (simp add: validateTemplatePath_def truthy_def path_normalize_def normalizeString_def
      str_startsWith_def path_isAbsolute_def path_join_def)

text \<open>
  C6. The five edge cases, for every root and every absolute working directory: the empty
  string is rejected; \<open>a/../b\<close> is accepted and gives the root joined with \<open>b\<close>; \<open>../x\<close>,
  \<open>/etc/passwd\<close> and \<open>a/../../b\<close> are rejected.
\<close>

theorem validateTemplatePath_edge_cases:
  assumes "path_isAbsolute cwd"
  shows "validateTemplatePath ORIG_ROOT cwd (QString []) = None \<and>
         validateTemplatePath ORIG_ROOT cwd (QString ''a/../b'') = Some (path_join [ORIG_ROOT, ''b'']) \<and>
         validateTemplatePath ORIG_ROOT cwd (QString ''../x'') = None \<and>
         validateTemplatePath ORIG_ROOT cwd (QString ''/etc/passwd'') = None \<and>
         validateTemplatePath ORIG_ROOT cwd (QString ''a/../../b'') = None"
proof -
  have n: "path_normalize ''a/../b'' = ''b''" "path_normalize ''../x'' = ''../x''"
    "path_normalize ''/etc/passwd'' = ''/etc/passwd''" "path_normalize ''a/../../b'' = ''../b''"
    by (simp_all add: path_normalize_def normalizeString_def)
  have 1: "validateTemplatePath ORIG_ROOT cwd (QString []) = None"
    by (rule validate_rejects) simp
  have 2: "validateTemplatePath ORIG_ROOT cwd (QString ''a/../b'') = Some (path_join [ORIG_ROOT, ''b''])"
    using validate_accepts [OF assms, of "''a/../b''" ORIG_ROOT] n(1)
    by (simp add: path_isAbsolute_def)
  have 3: "validateTemplatePath ORIG_ROOT cwd (QString ''../x'') = None"
    by (rule validate_rejects) (simp add: n)
  have 4: "validateTemplatePath ORIG_ROOT cwd (QString ''/etc/passwd'') = None"
    by (rule validate_rejects) (simp add: n path_isAbsolute_def)
  have 5: "validateTemplatePath ORIG_ROOT cwd (QString ''a/../../b'') = None"
    by (rule validate_rejects) (simp add: n)
  show ?thesis using 1 2 3 4 5 by simp
qed

theorem validateTemplatePath_edge_cases_witness:
  "validateTemplatePath ''/templates'' ''/srv'' (QString []) = None \<and>
   validateTemplatePath ''/templates'' ''/srv'' (QString ''a/../b'') = Some ''/templates/b'' \<and>
   validateTemplatePath ''/templates'' ''/srv'' (QString ''../x'') = None \<and>
   validateTemplatePath ''/templates'' ''/srv'' (QString ''/etc/passwd'') = None \<and>
   validateTemplatePath ''/templates'' ''/srv'' (QString ''a/../../b'') = None"
proof -
  have a: "path_isAbsolute ''/srv''" by (simp add: path_isAbsolute_def)
  have j: "path_join [''/templates'', ''b''] = ''/templates/b''"
    by (simp add: path_join_def path_normalize_def normalizeString_def)
  show ?thesis using validateTemplatePath_edge_cases [OF a, of "''/templates''"] j by simp
qed

section \<open>Decimal rendering and the temporary paths\<close>

lemma digit_chars_inj:
  assumes "i < 10" "j < 10" "''0123456789'' ! i = ''0123456789'' ! j"
  shows "i = j"
proof -
  have "distinct ''0123456789''" by simp
  moreover have "length ''0123456789'' = 10" by simp
  ultimately show ?thesis using assms by (simp add: nth_eq_iff_index_eq)
qed

lemma digits_nonempty: "digits n \<noteq> []"
  by (subst digits.simps) simp

lemma digits_set: "set (digits n) \<subseteq> set ''0123456789''"
proof (induction n rule: digits.induct)
  case (1 n)
  have m: "''0123456789'' ! (n mod 10) \<in> set ''0123456789''"
    by (rule nth_mem) simp
  show ?case
  proof (cases "n < 10")
    case True
    then have "''0123456789'' ! n \<in> set ''0123456789''" by (intro nth_mem) simp
    then show ?thesis using True by (subst digits.simps) simp
  next
    case False
    then show ?thesis using 1 m by (subst digits.simps) simp
  qed
qed

lemma digits_small: "n < 10 \<Longrightarrow> digits n = [''0123456789'' ! n]"
  by (subst digits.simps) simp

lemma digits_large:
  "\<not> n < 10 \<Longrightarrow> digits n = digits (n div 10) @ [''0123456789'' ! (n mod 10)]"
  by (subst digits.simps) simp

lemma digits_large_length: "\<not> n < 10 \<Longrightarrow> 2 \<le> length (digits n)"
proof -
  assume a: "\<not> n < 10"
  have "length (digits n) = Suc (length (digits (n div 10)))"
    by (subst digits_large [OF a]) simp
  moreover have "0 < length (digits (n div 10))"
    using digits_nonempty [of "n div 10"] by simp
  ultimately show ?thesis by linarith
qed

lemma digits_inj: "digits n = digits m \<Longrightarrow> n = m"
proof (induction n arbitrary: m rule: digits.induct)
  case (1 n)
  note eq = "1.prems"
  show ?case
  proof (cases "n < 10")
    case n: True
    show ?thesis
    proof (cases "m < 10")
      case True
      have "[''0123456789'' ! n] = [''0123456789'' ! m]"
        using eq by (simp only: digits_small [OF n] digits_small [OF True])
      then have "''0123456789'' ! n = ''0123456789'' ! m" by (simp only: list.inject)
      with n True show ?thesis by (rule digit_chars_inj)
    next
      case False
      have "length (digits n) = 1" by (simp only: digits_small [OF n]) simp
      moreover have "2 \<le> length (digits m)" using False by (rule digits_large_length)
      ultimately have "length (digits n) \<noteq> length (digits m)" by linarith
      then show ?thesis using eq by simp
    qed
  next
    case n: False
    show ?thesis
    proof (cases "m < 10")
      case True
      have "length (digits m) = 1" by (simp only: digits_small [OF True]) simp
      moreover have "2 \<le> length (digits n)" using n by (rule digits_large_length)
      ultimately have "length (digits n) \<noteq> length (digits m)" by linarith
      then show ?thesis using eq by simp
    next
      case False
      have "digits (n div 10) @ [''0123456789'' ! (n mod 10)] =
            digits (m div 10) @ [''0123456789'' ! (m mod 10)]"
        using eq by (simp only: digits_large [OF n] digits_large [OF False])
      then have a: "digits (n div 10) = digits (m div 10)"
        and b: "''0123456789'' ! (n mod 10) = ''0123456789'' ! (m mod 10)"
        by (simp_all only: append1_eq_conv)
      have "n div 10 = m div 10" using "1.IH" [OF n a] .
      moreover have "n mod 10 < 10" "m mod 10 < 10" by simp_all
      then have "n mod 10 = m mod 10" using b by (rule digit_chars_inj)
      ultimately show ?thesis
        using div_mult_mod_eq [of n 10] div_mult_mod_eq [of m 10] by metis
    qed
  qed
qed

lemma resolved_segs_join_name:
  assumes "file_name n"
  shows "resolved_segs cwd (path_join [d, n]) = resolved_segs cwd d @ [n]"
proof -
  have sp: "split_on (CHR ''/'') n = [n]" using assms by (simp add: file_name_def split_on_no_sep)
  have a: "\<not> path_isAbsolute n" using assms by (cases n) (auto simp: file_name_def path_isAbsolute_def)
  have b: "n \<noteq> []" using assms by (simp add: file_name_def)
  have c: "list_all (\<lambda>s. s \<noteq> ''..'') (split_on (CHR ''/'') n)"
    using assms sp by (simp add: file_name_def)
  have "resolved_segs cwd (path_join [d, n]) = resolved_segs cwd d @ inner_segs n"
    using b a c by (rule resolved_segs_join)
  then show ?thesis using assms sp by (simp add: inner_segs_def file_name_def)
qed

lemma path_join_name_inj:
  assumes "file_name n1" "file_name n2" "path_join [d, n1] = path_join [d, n2]"
  shows "n1 = n2"
proof -
  have "resolved_segs [] d @ [n1] = resolved_segs [] (path_join [d, n1])"
    by (rule resolved_segs_join_name [OF assms(1), symmetric])
  also have "\<dots> = resolved_segs [] (path_join [d, n2])"
    by (simp only: assms(3))
  also have "\<dots> = resolved_segs [] d @ [n2]"
    by (rule resolved_segs_join_name [OF assms(2)])
  finally show ?thesis by simp
qed

lemma digit_not_sep: "CHR ''/'' \<notin> set (digits n)"
  using digits_set [of n] by auto

lemma data_name: "file_name (''data_'' @ digits n @ ''.fdf'')"
  using digit_not_sep [of n] by (simp add: file_name_def)

lemma out_name: "file_name (''out_'' @ digits n @ ''.pdf'')"
  using digit_not_sep [of n] by (simp add: file_name_def)

lemma fdfPath_eq_iff:
  "tmpdir e1 = tmpdir e2 \<Longrightarrow> (fdfPath e1 = fdfPath e2) = (now_fdf e1 = now_fdf e2)"
  using path_join_name_inj [OF data_name data_name, of "tmpdir e2" "now_fdf e1" "now_fdf e2"]
  by (auto simp: fdfPath_def dest: digits_inj)

lemma outPath_eq_iff:
  "tmpdir e1 = tmpdir e2 \<Longrightarrow> (outPath e1 = outPath e2) = (now_out e1 = now_out e2)"
  using path_join_name_inj [OF out_name out_name, of "tmpdir e2" "now_out e1" "now_out e2"]
  by (auto simp: outPath_def dest: digits_inj)

lemma fdfPath_neq_outPath: "tmpdir e1 = tmpdir e2 \<Longrightarrow> fdfPath e1 \<noteq> outPath e2"
  using path_join_name_inj [OF data_name out_name, of "tmpdir e2" "now_fdf e1" "now_out e2"]
  by (auto simp: fdfPath_def outPath_def)

lemma show_int_inj: "show_int i = show_int j \<Longrightarrow> i = j"
proof -
  have digit: "hd (digits n) \<noteq> CHR ''-''" for n
  proof -
    have "hd (digits n) \<in> set (digits n)" using digits_nonempty by (rule hd_in_set)
    then have "hd (digits n) \<in> set ''0123456789''" using digits_set by blast
    then show ?thesis by auto
  qed
  assume eq: "show_int i = show_int j"
  show ?thesis
  proof (cases "i < 0")
    case i: True
    show ?thesis
    proof (cases "j < 0")
      case True
      then have "digits (nat (- i)) = digits (nat (- j))" using eq i by (simp add: show_int_def)
      then have "nat (- i) = nat (- j)" by (rule digits_inj)
      then show ?thesis using i True by linarith
    next
      case False
      then have "CHR ''-'' # digits (nat (- i)) = digits (nat j)" using eq i by (simp add: show_int_def)
      then have "hd (digits (nat j)) = CHR ''-''" by (metis list.sel(1))
      then show ?thesis using digit by blast
    qed
  next
    case i: False
    show ?thesis
    proof (cases "j < 0")
      case True
      then have "digits (nat i) = CHR ''-'' # digits (nat (- j))" using eq i by (simp add: show_int_def)
      then have "hd (digits (nat i)) = CHR ''-''" by (metis list.sel(1))
      then show ?thesis using digit by blast
    next
      case False
      then have "digits (nat i) = digits (nat j)" using eq i by (simp add: show_int_def)
      then have "nat i = nat j" by (rule digits_inj)
      then show ?thesis using i False by linarith
    qed
  qed
qed

lemma sample_paths:
  "fdfPath (sample_env 1700000000000 c) = ''/tmp/data_1700000000000.fdf''"
  "outPath (sample_env 1700000000000 c) = ''/tmp/out_1700000000000.pdf''"
  by (simp_all add: fdfPath_def outPath_def sample_env_def digits.simps path_join_def
      path_normalize_def normalizeString_def)

lemma sample_writes:
  "child_writes (sample_env 1700000000000 c) fs = fs(''/tmp/out_1700000000000.pdf'' \<mapsto> ''%PDF-1.4 filled'')"
  by (simp add: sample_env_def digits.simps path_join_def path_normalize_def normalizeString_def)

lemma sample_faults:
  "write_fault (sample_env now c) = None" "read_fault (sample_env now c) = None"
  "unlink_fault (sample_env now c) p = None" "child (sample_env now c) = c"
  "tmpdir (sample_env now c) = ''/tmp''" "now_fdf (sample_env now c) = now"
  "now_out (sample_env now c) = now"
  by (simp_all add: sample_env_def)

lemma sample_world_simps:
  "files sample_world = [''/templates/fire.pdf'' \<mapsto> ''%PDF-1.4 form'']"
  "spawned sample_world = []"
  by (simp_all add: sample_world_def)

lemmas sample_simps = sample_paths sample_writes sample_faults sample_world_simps

lemmas fill_defs = fillPdf_def buildFdf_def value_toString_def writeFileSync_def readFile_def
  Let_def pdftk_fill_def cleanup_def existsSync_def unlinkSync_def show_code_def show_int_def

text \<open>
  C4, as the code has it. The two temporary paths are the temporary directory joined with
  names built from the readings of \<open>Date.now()\<close> and nothing else: two invocations with
  the same temporary directory get the same intermediate-file path exactly when they read
  the same millisecond value, and likewise for the output path. Invocations that start
  within one millisecond share both paths.
\<close>

theorem temp_paths_follow_the_clock:
  assumes "tmpdir e1 = tmpdir e2"
  shows "(fdfPath e1 = fdfPath e2) = (now_fdf e1 = now_fdf e2) \<and>
         (outPath e1 = outPath e2) = (now_out e1 = now_out e2)"
  using fdfPath_eq_iff [OF assms] outPath_eq_iff [OF assms] by simp

theorem temp_paths_follow_the_clock_witness:
  "fdfPath (sample_env 1700000000000 (Exit (Some 0))) \<noteq> fdfPath (sample_env 1700000000001 (Exit (Some 1))) \<and>
   outPath (sample_env 1700000000000 (Exit (Some 0))) \<noteq> outPath (sample_env 1700000000001 (Exit (Some 1))) \<and>
   fdfPath (sample_env 1700000000000 (Exit (Some 0))) = fdfPath (sample_env 1700000000000 (Exit (Some 1)))"
proof -
  have t: "tmpdir (sample_env 1700000000000 (Exit (Some 0))) = tmpdir (sample_env 1700000000001 (Exit (Some 1)))"
    "tmpdir (sample_env 1700000000000 (Exit (Some 0))) = tmpdir (sample_env 1700000000000 (Exit (Some 1)))"
    by (simp_all add: sample_faults)
  show ?thesis
    using temp_paths_follow_the_clock [OF t(1)] temp_paths_follow_the_clock [OF t(2)]
    by (simp add: sample_faults)
qed

theorem same_millisecond_same_temp_files:
  "spawned (snd (fillPdf (sample_env 1700000000000 (Exit (Some 0))) ''/templates/a.pdf''
      [(''Name'', JString ''A'')] sample_world)) =
     [[''pdftk'', ''/templates/a.pdf'', ''fill_form'', ''/tmp/data_1700000000000.fdf'',
       ''output'', ''/tmp/out_1700000000000.pdf'', ''flatten'']] \<and>
   spawned (snd (fillPdf (sample_env 1700000000000 (Exit (Some 0))) ''/templates/b.pdf''
      [(''Name'', JString ''B'')] sample_world)) =
     [[''pdftk'', ''/templates/b.pdf'', ''fill_form'', ''/tmp/data_1700000000000.fdf'',
       ''output'', ''/tmp/out_1700000000000.pdf'', ''flatten'']]"
  by (simp add: fill_defs sample_simps)

section \<open>The temporary files after a fill\<close>

lemma cleanup_removes:
  assumes "removable env"
  shows "cleanup env fs (fdfPath env) = None \<and> cleanup env fs (outPath env) = None"
  using assms
  by (auto simp: removable_def cleanup_def existsSync_def unlinkSync_def
      split: option.splits)

lemma cleanup_other: "p \<noteq> fdfPath env \<Longrightarrow> p \<noteq> outPath env \<Longrightarrow> cleanup env fs p = fs p"
  by (auto simp: cleanup_def existsSync_def unlinkSync_def split: option.splits)

lemma sample_removable: "removable (sample_env now c)"
  by (simp add: removable_def sample_env_def)

text \<open>
  C2, as the code has it. Whatever the outcome of the revised \<open>fillPdf\<close> (buildFdf or the
  write throws, the subprocess does not start, it ends with any code after doing anything
  to the files, the read fails or succeeds), neither temporary path names a file in the
  world the call leaves when it settles, provided the removal of these two files does not
  itself fail. The removal is best effort: \<open>cleanup\<close> catches a failing removal and goes
  on, so a file that cannot be removed is still there after the call.
\<close>

theorem fillPdf_cleans_up:
  assumes "removable env"
  shows "files (snd (fillPdf env templatePath data w)) (fdfPath env) = None \<and>
         files (snd (fillPdf env templatePath data w)) (outPath env) = None"
  using cleanup_removes [OF assms]
  by (simp add: fillPdf_def Let_def split: sum.splits prod.splits child_outcome.splits)

theorem fillPdf_cleans_up_witness:
  "fst (fillPdf (sample_env 1700000000000 (Exit (Some 1))) ''/templates/fire.pdf''
      [(''Name'', JString ''x'')] sample_world) =
     Rejected (Error ''pdftk fill_form failed with exit code 1'') \<and>
   files (snd (fillPdf (sample_env 1700000000000 (Exit (Some 1))) ''/templates/fire.pdf''
      [(''Name'', JString ''x'')] sample_world)) ''/tmp/data_1700000000000.fdf'' = None \<and>
   files (snd (fillPdf (sample_env 1700000000000 (Exit (Some 1))) ''/templates/fire.pdf''
      [(''Name'', JString ''x'')] sample_world)) ''/tmp/out_1700000000000.pdf'' = None"
proof -
  have "fst (fillPdf (sample_env 1700000000000 (Exit (Some 1))) ''/templates/fire.pdf''
      [(''Name'', JString ''x'')] sample_world) =
     Rejected (Error ''pdftk fill_form failed with exit code 1'')"
    by (simp add: fill_defs sample_simps digits.simps)
  then show ?thesis
    using fillPdf_cleans_up [OF sample_removable, of 1700000000000 "Exit (Some 1)"
        "''/templates/fire.pdf''" "[(''Name'', JString ''x'')]" sample_world]
    by (simp add: sample_paths)
qed

lemma original_leaves_output_after_failure:
  "files (snd (fillPdf_original (sample_env 1700000000000 (Exit (Some 1))) ''/templates/fire.pdf''
      [(''Name'', JString ''x'')] sample_world)) ''/tmp/out_1700000000000.pdf'' =
     Some ''%PDF-1.4 filled''"
  by (simp add: fillPdf_original_def unlink_ignoring_def fill_defs sample_simps)

lemma locked_paths:
  "fdfPath (locked_env c) = ''/tmp/data_1700000000000.fdf''"
  "outPath (locked_env c) = ''/tmp/out_1700000000000.pdf''"
  using sample_paths [of c] by (simp_all add: locked_env_def fdfPath_def outPath_def)

lemma locked_faults:
  "write_fault (locked_env c) = None" "read_fault (locked_env c) = None" "child (locked_env c) = c"
  "unlink_fault (locked_env c) ''/tmp/data_1700000000000.fdf'' =
     Some (Error ''EPERM: operation not permitted, unlink'')"
  "unlink_fault (locked_env c) ''/tmp/out_1700000000000.pdf'' = None"
  "child_writes (locked_env c) fs = fs(''/tmp/out_1700000000000.pdf'' \<mapsto> ''%PDF-1.4 filled'')"
  using sample_writes [of c fs] by (simp_all add: locked_env_def sample_faults)

lemmas locked_simps = locked_paths locked_faults sample_world_simps

theorem failed_removal_leaves_both_files:
  "fst (fillPdf (locked_env (Exit (Some 1))) ''/templates/fire.pdf''
      [(''Name'', JString ''x'')] sample_world) =
     Rejected (Error ''pdftk fill_form failed with exit code 1'') \<and>
   files (snd (fillPdf (locked_env (Exit (Some 1))) ''/templates/fire.pdf''
      [(''Name'', JString ''x'')] sample_world)) ''/tmp/data_1700000000000.fdf'' =
     Some (fdf_header @ ''<< /T (Name) /V (x) >>'' @ [LF] @ fdf_trailer) \<and>
   files (snd (fillPdf (locked_env (Exit (Some 1))) ''/templates/fire.pdf''
      [(''Name'', JString ''x'')] sample_world)) ''/tmp/out_1700000000000.pdf'' =
     Some ''%PDF-1.4 filled''"
  by (simp add: fill_defs locked_simps digits.simps escape_value_def fdf_entry_def)

section \<open>The outcome classes of a fill\<close>

text \<open>
  C7. When the FDF has been written, the promise of \<open>fillPdf\<close> settles by the outcome of
  the subprocess alone: an \<open>error\<close> event rejects with the launch failure and its message;
  a \<open>close\<close> with a code other than 0 rejects with the fill failure that carries the code;
  a \<open>close\<close> with code 0 resolves with the bytes read from the output path, or rejects
  with the error of the read.
\<close>

theorem fillPdf_outcomes:
  assumes "buildFdf data = Inr doc" and "write_fault env = None"
  shows "fst (fillPdf env templatePath data w) =
           (case child env of
              SpawnError err \<Rightarrow> Rejected (Error (''pdftk spawn failed: '' @ message err))
            | Exit code \<Rightarrow>
                if code = Some 0 then
                  (case readFile env (outPath env)
                          (child_writes env ((files w)(fdfPath env \<mapsto> doc))) of
                     Inl err \<Rightarrow> Rejected err
                   | Inr buf \<Rightarrow> Resolved buf)
                else Rejected (Error (''pdftk fill_form failed with exit code '' @ show_code code)))"
  using assms
  by (simp add: fillPdf_def writeFileSync_def Let_def split: sum.splits child_outcome.splits)

theorem fillPdf_outcomes_witness:
  "fst (fillPdf (sample_env 1700000000000 (SpawnError (Error ''spawn pdftk ENOENT'')))
      ''/templates/fire.pdf'' [] sample_world) =
     Rejected (Error ''pdftk spawn failed: spawn pdftk ENOENT'') \<and>
   fst (fillPdf (sample_env 1700000000000 (Exit (Some 3))) ''/templates/fire.pdf'' [] sample_world) =
     Rejected (Error ''pdftk fill_form failed with exit code 3'') \<and>
   fst (fillPdf (sample_env 1700000000000 (Exit (Some 0))) ''/templates/fire.pdf'' [] sample_world) =
     Resolved ''%PDF-1.4 filled''"
proof -
  have b: "buildFdf [] = Inr (fdf_header @ fdf_trailer)" by (simp add: buildFdf_def)
  have f: "write_fault (sample_env 1700000000000 c) = None" for c by (simp add: sample_faults)
  show ?thesis
    using fillPdf_outcomes [OF b f, of "SpawnError (Error ''spawn pdftk ENOENT'')" "''/templates/fire.pdf'' " sample_world]
      fillPdf_outcomes [OF b f, of "Exit (Some 3)" "''/templates/fire.pdf'' " sample_world]
      fillPdf_outcomes [OF b f, of "Exit (Some 0)" "''/templates/fire.pdf'' " sample_world]
    by (simp add: sample_simps readFile_def show_code_def show_int_def digits.simps)
qed

lemma exit_code_carried:
  "show_code (Some i) = show_code (Some j) \<Longrightarrow> i = j"
  by (simp add: show_code_def show_int_inj)

section \<open>Rejection before any subprocess or file access\<close>

lemma validate_falsy: "\<not> truthy template \<Longrightarrow> validateTemplatePath root cwd template = None"
  by (cases template) (simp_all add: validateTemplatePath_def truthy_def)

text \<open>
  C8. When the template parameter is missing or \<open>validateTemplatePath\<close> rejects it, both
  handlers answer with status 400 and leave the world as it was: no subprocess has been
  spawned and no file has been written.
\<close>

theorem rejected_before_io:
  assumes "validateTemplatePath ORIG_ROOT cwd template = None"
  shows "get_fields ORIG_ROOT cwd outcome template w =
           (Some \<lparr>status = 400,
                  body = JsonError (if truthy template then ''invalid template path''
                                    else ''template query parameter is required'')\<rparr>, w) \<and>
         post_submit ORIG_ROOT cwd env template data w =
           (Some \<lparr>status = 400,
                  body = JsonError (if truthy template then ''invalid template path''
                                    else ''template query parameter is required'')\<rparr>, w)"
  using assms by (simp add: get_fields_def post_submit_def)

theorem rejected_before_io_witness:
  "get_fields ''/templates'' ''/srv'' (Resolved [''Name'']) (QString ''../../../etc/passwd'') sample_world =
     (Some \<lparr>status = 400, body = JsonError ''invalid template path''\<rparr>, sample_world) \<and>
   post_submit ''/templates'' ''/srv'' (sample_env 1700000000000 (Exit (Some 0)))
       (QString ''../../../etc/passwd'') [(''Name'', JString ''x'')] sample_world =
     (Some \<lparr>status = 400, body = JsonError ''invalid template path''\<rparr>, sample_world) \<and>
   post_submit ''/templates'' ''/srv'' (sample_env 1700000000000 (Exit (Some 0)))
       QUndefined [(''Name'', JString ''x'')] sample_world =
     (Some \<lparr>status = 400, body = JsonError ''template query parameter is required''\<rparr>, sample_world)"
proof -
  have v: "validateTemplatePath ''/templates'' ''/srv'' (QString ''../../../etc/passwd'') = None"
    by (rule validate_rejects) (simp add: path_normalize_def normalizeString_def)
  have u: "validateTemplatePath ''/templates'' ''/srv'' QUndefined = None"
    by (simp add: validateTemplatePath_def)
  show ?thesis
    using rejected_before_io [OF v, of "Resolved [''Name'']" sample_world
        "sample_env 1700000000000 (Exit (Some 0))" "[(''Name'', JString ''x'')]"]
      rejected_before_io [OF u, of "Resolved [''Name'']" sample_world
        "sample_env 1700000000000 (Exit (Some 0))" "[(''Name'', JString ''x'')]"]
    by (simp add: truthy_def)
qed

lemma accepted_request_spawns:
  "snd (post_submit ''/templates'' ''/srv'' (sample_env 1700000000000 (Exit (Some 0)))
       (QString ''fire.pdf'') [(''Name'', JString ''x'')] sample_world) =
     sample_world\<lparr>spawned :=
       [[''pdftk'', ''/templates/fire.pdf'', ''fill_form'', ''/tmp/data_1700000000000.fdf'',
         ''output'', ''/tmp/out_1700000000000.pdf'', ''flatten'']]\<rparr>"
proof -
  have a: "path_isAbsolute ''/srv''" by (simp add: path_isAbsolute_def)
  have v: "validateTemplatePath ''/templates'' ''/srv'' (QString ''fire.pdf'') = Some ''/templates/fire.pdf''"
    using validate_accepts [OF a, of "''fire.pdf''" "''/templates''"]
    by (simp add: path_normalize_def normalizeString_def path_isAbsolute_def path_join_def)
  have e: "existsSync (files sample_world) ''/templates/fire.pdf''"
    by (simp add: existsSync_def sample_world_def)
  have "snd (fillPdf (sample_env 1700000000000 (Exit (Some 0))) ''/templates/fire.pdf''
          [(''Name'', JString ''x'')] sample_world) =
        sample_world\<lparr>spawned :=
          [[''pdftk'', ''/templates/fire.pdf'', ''fill_form'', ''/tmp/data_1700000000000.fdf'',
            ''output'', ''/tmp/out_1700000000000.pdf'', ''flatten'']]\<rparr>"
    by (simp add: fill_defs sample_simps)
  then show ?thesis
    using v e by (auto simp: post_submit_def truthy_def split: prod.splits)
qed

section \<open>\<open>buildFdf\<close> on absent values\<close>

lemma fdf_body_plain:
  "list_all (\<lambda>(k, v). plain_value v) fieldsObj \<Longrightarrow>
   fdf_body fieldsObj =
     Inr (concat (map (\<lambda>(k, v). fdf_entry k (escape_value (value_text v))) fieldsObj))"
  by (induction fieldsObj)
    (auto simp: value_toString_def plain_value_def value_text_def split: field_value.splits)

text \<open>
  C9. On a field map whose values are strings, \<open>null\<close> or \<open>undefined\<close>, \<open>buildFdf\<close> does not
  throw: it returns the header, one entry per key in order, and the trailer. The value of
  an entry is the escaped string, the empty string for \<open>null\<close> and \<open>undefined\<close>; the key is
  put between the parentheses of \<open>/T\<close> as it is, with no escaping.
\<close>

theorem buildFdf_total_on_absent_values:
  assumes "list_all (\<lambda>(k, v). plain_value v) fieldsObj"
  shows "buildFdf fieldsObj =
           Inr (fdf_header @
                concat (map (\<lambda>(k, v). ''<< /T ('' @ k @ '') /V ('' @ escape_value (value_text v) @
                                        '') >>'' @ [LF]) fieldsObj) @
                fdf_trailer) \<and>
         value_text JNull = [] \<and> value_text JUndefined = [] \<and> escape_value [] = []"
  using fdf_body_plain [OF assms]
  by (simp add: buildFdf_def fdf_entry_def value_text_def escape_value_def)

theorem buildFdf_total_on_absent_values_witness:
  "buildFdf [(''a)b('', JNull), (''c'', JUndefined), (''d'', JString ''x'')] =
     Inr (fdf_header @
          ''<< /T (a)b() /V () >>'' @ [LF] @
          ''<< /T (c) /V () >>'' @ [LF] @
          ''<< /T (d) /V (x) >>'' @ [LF] @
          fdf_trailer)"
proof -
  have p: "list_all (\<lambda>(k, v). plain_value v) [(''a)b('', JNull), (''c'', JUndefined), (''d'', JString ''x'')]"
    by (simp add: plain_value_def)
  show ?thesis
    using buildFdf_total_on_absent_values [OF p]
    by (simp add: value_text_def escape_value_def)
qed

lemma buildFdf_throws_with_toString:
  "buildFdf [(''a'', JString ''x''), (''b'', JOther (Inl err)), (''c'', JNull)] = Inl err"
  by (simp add: buildFdf_def value_toString_def)

section \<open>The two versions of \<open>fillPdf\<close>\<close>

lemma readFile_unlink_other:
  "p \<noteq> q \<Longrightarrow> readFile env p (unlink_ignoring env q fs) = readFile env p fs"
  by (auto simp: readFile_def unlink_ignoring_def unlinkSync_def split: option.splits)

lemma cleanup_as_unlinks:
  assumes "removable env"
  shows "cleanup env fs = unlink_ignoring env (outPath env) (unlink_ignoring env (fdfPath env) fs)"
  using assms
  by (auto simp: removable_def cleanup_def unlink_ignoring_def unlinkSync_def existsSync_def
      split: option.splits)

text \<open>
  C10, as the code has it. On the success path (the FDF is built and written, the
  subprocess ends with code 0 and the output is read), the original and the revised
  \<open>fillPdf\<close> resolve with the same bytes; when removing the two temporary files does not
  fail, they also leave the same world, in which neither temporary file exists. When a
  removal fails, files stay behind on the success path too, and the two versions need not
  leave the same ones.
\<close>

theorem fillPdf_versions_agree_on_success:
  assumes "buildFdf data = Inr doc" and "write_fault env = None" and "child env = Exit (Some 0)"
    and "readFile env (outPath env) (child_writes env ((files w)(fdfPath env \<mapsto> doc))) = Inr buf"
  shows "fst (fillPdf_original env templatePath data w) = Resolved buf \<and>
         fst (fillPdf env templatePath data w) = Resolved buf \<and>
         (removable env \<longrightarrow>
            snd (fillPdf_original env templatePath data w) = snd (fillPdf env templatePath data w) \<and>
            files (snd (fillPdf_original env templatePath data w)) (fdfPath env) = None \<and>
            files (snd (fillPdf_original env templatePath data w)) (outPath env) = None \<and>
            files (snd (fillPdf env templatePath data w)) (fdfPath env) = None \<and>
            files (snd (fillPdf env templatePath data w)) (outPath env) = None)"
proof -
  have ne: "outPath env \<noteq> fdfPath env" using fdfPath_neq_outPath [of env env] by auto
  have r: "fillPdf env templatePath data w =
           (Resolved buf,
            w\<lparr>spawned := spawned w @ [pdftk_fill env templatePath],
              files := cleanup env (child_writes env ((files w)(fdfPath env \<mapsto> doc)))\<rparr>)"
    using assms by (simp add: fillPdf_def writeFileSync_def Let_def)
  have o1: "fst (fillPdf_original env templatePath data w) = Resolved buf"
    using assms readFile_unlink_other [OF ne, of env]
    by (simp add: fillPdf_original_def writeFileSync_def Let_def)
  have o2: "fillPdf_original env templatePath data w =
           (Resolved buf,
            w\<lparr>spawned := spawned w @ [pdftk_fill env templatePath],
              files := cleanup env (child_writes env ((files w)(fdfPath env \<mapsto> doc)))\<rparr>)"
    if rem: "removable env"
    using assms readFile_unlink_other [OF ne, of env]
    by (simp add: fillPdf_original_def writeFileSync_def Let_def cleanup_as_unlinks [OF rem])
  show ?thesis
    using r o1 o2 cleanup_removes [of env] by simp
qed

theorem fillPdf_versions_agree_on_success_witness:
  "fst (fillPdf_original (sample_env 1700000000000 (Exit (Some 0))) ''/templates/fire.pdf''
      [(''Name'', JString ''x'')] sample_world) = Resolved ''%PDF-1.4 filled'' \<and>
   fst (fillPdf (sample_env 1700000000000 (Exit (Some 0))) ''/templates/fire.pdf''
      [(''Name'', JString ''x'')] sample_world) = Resolved ''%PDF-1.4 filled'' \<and>
   files (snd (fillPdf_original (sample_env 1700000000000 (Exit (Some 0))) ''/templates/fire.pdf''
      [(''Name'', JString ''x'')] sample_world)) ''/tmp/data_1700000000000.fdf'' = None \<and>
   files (snd (fillPdf_original (sample_env 1700000000000 (Exit (Some 0))) ''/templates/fire.pdf''
      [(''Name'', JString ''x'')] sample_world)) ''/tmp/out_1700000000000.pdf'' = None"
proof -
  let ?e = "sample_env 1700000000000 (Exit (Some 0))"
  have b: "buildFdf [(''Name'', JString ''x'')] =
           Inr (fdf_header @ fdf_entry ''Name'' (escape_value ''x'') @ fdf_trailer)"
    by (simp add: buildFdf_def value_toString_def)
  have f: "write_fault ?e = None" and c: "child ?e = Exit (Some 0)"
    by (simp_all add: sample_faults)
  have r: "readFile ?e (outPath ?e)
             (child_writes ?e ((files sample_world)
                (fdfPath ?e \<mapsto> fdf_header @ fdf_entry ''Name'' (escape_value ''x'') @ fdf_trailer))) =
           Inr ''%PDF-1.4 filled''"
    by (simp add: readFile_def sample_simps)
  show ?thesis
    using fillPdf_versions_agree_on_success [OF b f c r, of "''/templates/fire.pdf''"]
      sample_removable [of 1700000000000 "Exit (Some 0)"]
    by (auto simp: sample_paths)
qed

theorem versions_differ_when_removal_fails:
  "fst (fillPdf_original (locked_env (Exit (Some 0))) ''/templates/fire.pdf''
      [(''Name'', JString ''x'')] sample_world) = Resolved ''%PDF-1.4 filled'' \<and>
   fst (fillPdf (locked_env (Exit (Some 0))) ''/templates/fire.pdf''
      [(''Name'', JString ''x'')] sample_world) = Resolved ''%PDF-1.4 filled'' \<and>
   files (snd (fillPdf_original (locked_env (Exit (Some 0))) ''/templates/fire.pdf''
      [(''Name'', JString ''x'')] sample_world)) ''/tmp/data_1700000000000.fdf'' =
     Some (fdf_header @ ''<< /T (Name) /V (x) >>'' @ [LF] @ fdf_trailer) \<and>
   files (snd (fillPdf_original (locked_env (Exit (Some 0))) ''/templates/fire.pdf''
      [(''Name'', JString ''x'')] sample_world)) ''/tmp/out_1700000000000.pdf'' = None \<and>
   files (snd (fillPdf (locked_env (Exit (Some 0))) ''/templates/fire.pdf''
      [(''Name'', JString ''x'')] sample_world)) ''/tmp/data_1700000000000.fdf'' =
     Some (fdf_header @ ''<< /T (Name) /V (x) >>'' @ [LF] @ fdf_trailer) \<and>
   files (snd (fillPdf (locked_env (Exit (Some 0))) ''/templates/fire.pdf''
      [(''Name'', JString ''x'')] sample_world)) ''/tmp/out_1700000000000.pdf'' =
     Some ''%PDF-1.4 filled''"
  by (simp add: fillPdf_original_def unlink_ignoring_def fill_defs locked_simps escape_value_def
      fdf_entry_def)

section \<open>Escaping and reading back a field value\<close>

lemma replace_char_append:
  "replace_char c rep (a @ b) = replace_char c rep a @ replace_char c rep b"
  by (induction a) simp_all

lemma replace_passes:
  "replace_char (CHR '')'') [BSL, CHR '')'']
     (replace_char (CHR ''('') [BSL, CHR ''('']
       (replace_char BSL [BSL, BSL] v)) = concat (map escape_char v)"
  by (induction v) (simp_all add: escape_char_def)

lemma replace_newlines_none: "LF \<notin> set s \<Longrightarrow> replace_newlines rep s = s"
  by (induction rep s rule: replace_newlines.induct) auto

lemma escape_value_plain:
  assumes "LF \<notin> set v"
  shows "escape_value v = concat (map escape_char v)"
proof -
  have a: "LF \<notin> set (concat (map escape_char v))"
    using assms by (induction v) (simp_all add: escape_char_def)
  have "escape_value v = replace_newlines [BSL, CHR ''r''] (concat (map escape_char v))"
    by (simp only: escape_value_def replace_passes)
  then show ?thesis by (simp only: replace_newlines_none [OF a])
qed

lemma read_escaped_char:
  assumes "x \<noteq> CR" and "x \<noteq> LF"
  shows "read_literal d (escape_char x @ s) = map_option (\<lambda>(v, rest). (x # v, rest)) (read_literal d s)"
proof -
  consider "x = BSL" | "x = CHR ''(''" | "x = CHR '')''"
    | "x \<noteq> BSL" "x \<noteq> CHR ''(''" "x \<noteq> CHR '')''" by blast
  then show ?thesis
  proof cases
    case 1
    then show ?thesis by (simp add: escape_char_def octal_digit_def)
  next
    case 2
    then show ?thesis by (simp add: escape_char_def octal_digit_def)
  next
    case 3
    then show ?thesis by (simp add: escape_char_def octal_digit_def)
  next
    case 4
    then show ?thesis using assms by (simp add: escape_char_def)
  qed
qed

lemma read_escaped:
  assumes "CR \<notin> set v" and "LF \<notin> set v"
  shows "read_literal d (concat (map escape_char v) @ s) =
         map_option (\<lambda>(u, rest). (v @ u, rest)) (read_literal d s)"
  using assms
proof (induction v)
  case Nil
  then show ?case by (simp add: option.map_ident split_def)
next
  case (Cons x v)
  then have x: "x \<noteq> CR" "x \<noteq> LF" and v: "CR \<notin> set v" "LF \<notin> set v" by auto
  have "read_literal d (concat (map escape_char (x # v)) @ s) =
        map_option (\<lambda>(u, rest). (x # u, rest)) (read_literal d (concat (map escape_char v) @ s))"
    using read_escaped_char [OF x, of d "concat (map escape_char v) @ s"] by simp
  also have "\<dots> = map_option (\<lambda>(u, rest). (x # u, rest))
                     (map_option (\<lambda>(u, rest). (v @ u, rest)) (read_literal d s))"
    using Cons.IH [OF v] by simp
  also have "\<dots> = map_option (\<lambda>(u, rest). ((x # v) @ u, rest)) (read_literal d s)"
    by (cases "read_literal d s") (simp_all add: split_def)
  finally show ?case .
qed

lemma read_escaped_value:
  assumes "CR \<notin> set v" and "LF \<notin> set v"
  shows "read_literal 0 (escape_value v @ CHR '')'' # rest) = Some (v, rest)"
  using read_escaped [OF assms, of 0 "CHR '')'' # rest"]
  by (simp add: escape_value_plain [OF assms(2)])

lemma fdf_body_entry:
  assumes "fdf_body fieldsObj = Inr bd" and "(key, JString v) \<in> set fieldsObj"
  shows "\<exists>before after. bd = before @ fdf_entry key (escape_value v) @ after"
  using assms
proof (induction fieldsObj arbitrary: bd)
  case Nil
  then show ?case by simp
next
  case (Cons kv rest)
  obtain k u where kv: "kv = (k, u)" by (cases kv)
  obtain s b where s: "value_toString u = Inr s" and b: "fdf_body rest = Inr b"
    and bd: "bd = fdf_entry k (escape_value s) @ b"
    using Cons.prems(1) kv by (auto split: sum.splits)
  show ?case
  proof (cases "(key, JString v) = kv")
    case True
    then have "bd = [] @ fdf_entry key (escape_value v) @ b"
      using kv s bd by (auto simp: value_toString_def)
    then show ?thesis by blast
  next
    case False
    then have "(key, JString v) \<in> set rest" using Cons.prems(2) by auto
    then obtain before after where "b = before @ fdf_entry key (escape_value v) @ after"
      using Cons.IH [OF b] by blast
    then have "bd = (fdf_entry k (escape_value s) @ before) @ fdf_entry key (escape_value v) @ after"
      using bd by simp
    then show ?thesis by blast
  qed
qed

text \<open>
  C3, as the code has it. For every field map that \<open>buildFdf\<close> serializes and every string
  value in it that contains no carriage return and no line feed, the document holds the
  entry of that key with the escaped value between the parentheses of \<open>/V\<close>, and reading
  that literal string back gives the value exactly, whatever backslashes and parentheses
  it contains. A line feed, together with a carriage return directly before it, is written
  as backslash \<open>r\<close>, which is read back as a carriage return.
\<close>

theorem buildFdf_round_trip:
  assumes "buildFdf fieldsObj = Inr doc" and "(key, JString v) \<in> set fieldsObj"
    and "CR \<notin> set v" and "LF \<notin> set v"
  shows "\<exists>before after.
           doc = before @ ''<< /T ('' @ key @ '') /V ('' @ escape_value v @ '')'' @ after \<and>
           read_literal 0 (escape_value v @ '')'' @ after) = Some (v, after)"
proof -
  obtain bd where bd: "fdf_body fieldsObj = Inr bd" and doc: "doc = fdf_header @ bd @ fdf_trailer"
    using assms(1) by (auto simp: buildFdf_def split: sum.splits)
  obtain b a where "bd = b @ fdf_entry key (escape_value v) @ a"
    using fdf_body_entry [OF bd assms(2)] by blast
  then have "doc = (fdf_header @ b) @ ''<< /T ('' @ key @ '') /V ('' @ escape_value v @ '')'' @
                   ('' >>'' @ [LF] @ a @ fdf_trailer)"
    using doc by (simp add: fdf_entry_def)
  moreover have "read_literal 0 (escape_value v @ '')'' @ ('' >>'' @ [LF] @ a @ fdf_trailer)) =
                 Some (v, '' >>'' @ [LF] @ a @ fdf_trailer)"
    using read_escaped_value [OF assms(3,4)] by simp
  ultimately show ?thesis by blast
qed

theorem buildFdf_round_trip_witness:
  "\<exists>before after.
     fdf_header @ ''<< /T (Name) /V (O'' @ [BSL] @ ''(1'' @ [BSL] @ '')'' @ [BSL, BSL] @ ''n) >>'' @ [LF] @ fdf_trailer =
       before @ ''<< /T (Name) /V ('' @ escape_value (''O(1)'' @ [BSL] @ ''n'') @ '')'' @ after \<and>
     read_literal 0 (escape_value (''O(1)'' @ [BSL] @ ''n'') @ '')'' @ after) =
       Some (''O(1)'' @ [BSL] @ ''n'', after)"
proof -
  have b: "buildFdf [(''Name'', JString (''O(1)'' @ [BSL] @ ''n''))] =
           Inr (fdf_header @ ''<< /T (Name) /V (O'' @ [BSL] @ ''(1'' @ [BSL] @ '')'' @ [BSL, BSL] @
                ''n) >>'' @ [LF] @ fdf_trailer)"
    by (simp add: buildFdf_def value_toString_def escape_value_def fdf_entry_def)
  have m: "(''Name'', JString (''O(1)'' @ [BSL] @ ''n'')) \<in> set [(''Name'', JString (''O(1)'' @ [BSL] @ ''n''))]"
    by simp
  have c: "CR \<notin> set (''O(1)'' @ [BSL] @ ''n'')" and l: "LF \<notin> set (''O(1)'' @ [BSL] @ ''n'')"
    by simp_all
  show ?thesis using buildFdf_round_trip [OF b m c l] by simp
qed

theorem line_feed_read_back_as_carriage_return:
  "buildFdf [(''Notes'', JString [CHR ''a'', LF, CHR ''b''])] =
     Inr (fdf_header @ ''<< /T (Notes) /V (a'' @ [BSL] @ ''rb) >>'' @ [LF] @ fdf_trailer) \<and>
   read_literal 0 (''a'' @ [BSL] @ ''rb) >>'' @ [LF] @ fdf_trailer) =
     Some ([CHR ''a'', CR, CHR ''b''], '' >>'' @ [LF] @ fdf_trailer) \<and>
   [CHR ''a'', CR, CHR ''b''] \<noteq> [CHR ''a'', LF, CHR ''b'']"
  by (simp add: buildFdf_def value_toString_def escape_value_def fdf_entry_def)


end
